theory Spec2Isabelle
  imports Main
begin

section \<open>Mini-XML node values, accessors and the element attribute store\<close>

text \<open>
  A shallow embedding of \<^verbatim>\<open>mxml-attr.c\<close> (the per-element attribute array) and of the
  node get functions (\<^verbatim>\<open>mxmlGetCDATA\<close> ... \<^verbatim>\<open>mxmlGetUserData\<close>).  C pointers are
  addresses into explicit heaps, \<^verbatim>\<open>NULL\<close> is \<open>None\<close>, and every dereference of an address
  that holds no object, every out-of-bounds array access and every \<^verbatim>\<open>free\<close> of a block that
  is not live is the result \<open>Inl\<close> of a fault instead of a value.
\<close>

subsection \<open>Data model\<close>

type_synonym addr = nat

type_synonym ptr = "addr option"

datatype fault = Invalid_access | Invalid_free

text \<open>
  Modelled from the spec: the header \<^verbatim>\<open>mxml.h\<close> with the declarations of
  \<^verbatim>\<open>mxml_type_t\<close>, \<^verbatim>\<open>mxml_attr_t\<close>, \<^verbatim>\<open>mxml_value_t\<close> and \<^verbatim>\<open>mxml_node_t\<close> is missing.
  The type tags are the closed enumeration of the spec (Element, Integer, Opaque, Text,
  Custom, Ignore); the fields are the ones the source reads and writes.
\<close>

datatype mxml_type =
  MXML_IGNORE | MXML_ELEMENT | MXML_INTEGER | MXML_OPAQUE | MXML_TEXT | MXML_CUSTOM

text \<open>An attribute slot: two \<^verbatim>\<open>char *\<close> into the string heap.\<close>

record mxml_attr =
  attr_name :: ptr
  attr_value :: ptr

text \<open>
  Modelled from the spec: an element value is \<open>{ name: string, attributes }\<close>.  The name is
  set by the tree-construction collaborator and is only read here, so it is held by content;
  \<open>num_attrs\<close> is the C \<^verbatim>\<open>int\<close> counter (an \<open>int\<close>: it moves by one per call and an array of
  \<open>2^31\<close> slots is never reached) and \<open>attrs\<close> the pointer to the backing array.
\<close>

record mxml_element =
  elem_name :: string
  num_attrs :: int
  attrs :: ptr

record mxml_text =
  whitespace :: int
  text_string :: "string option"

record mxml_custom =
  custom_data :: ptr

text \<open>
  The union \<^verbatim>\<open>node->value\<close>.  A selector applied to another member is unspecified, as reading
  a union member that was not the one written is in C; the source reads a member only after
  it has tested \<^verbatim>\<open>node->type\<close>.
\<close>

datatype mxml_value =
  V_element (v_element: mxml_element)
| V_integer (v_integer: int)
| V_opaque (v_opaque: "string option")
| V_text (v_text: mxml_text)
| V_custom (v_custom: mxml_custom)

record mxml_node =
  node_type :: mxml_type
  node_next :: ptr
  node_prev :: ptr
  node_parent :: ptr
  node_child :: ptr
  node_last_child :: ptr
  node_value :: mxml_value
  node_user_data :: ptr

text \<open>
  The machine state.  Strings and attribute arrays live in heaps whose cells are addressed by
  their position; a cell is \<open>None\<close> once freed and an allocation appends a cell, so that a
  fresh address is never one handed out before.  \<open>oom\<close> lists, for the allocation requests to
  come, whether each fails (\<open>True\<close>); once the list is used up every request succeeds.
  \<open>errs\<close> collects the messages handed to \<^verbatim>\<open>mxml_error\<close>, oldest first.
\<close>

record mxml_state =
  nodes :: "addr \<rightharpoonup> mxml_node"
  strs :: "string option list"
  arrs :: "mxml_attr list option list"
  oom :: "bool list"
  errs :: "string list"

definition cell :: "'a option list \<Rightarrow> addr \<Rightarrow> 'a option" where
  "cell h a = (if a < length h then h ! a else None)"

definition load_node :: "mxml_state \<Rightarrow> addr \<Rightarrow> fault + mxml_node" where
  "load_node s p = (case nodes s p of None \<Rightarrow> Inl Invalid_access | Some n \<Rightarrow> Inr n)"

subsection \<open>Node get functions\<close>

text \<open>\<^verbatim>\<open>mxmlGetCDATA\<close>: \<^verbatim>\<open>strncmp(name, "![CDATA[", 8)\<close> is zero exactly when the first eight
  characters of the name are the marker; the result points eight characters into the name.\<close>

definition mxmlGetCDATA :: "mxml_state \<Rightarrow> ptr \<Rightarrow> fault + string option" where
  "mxmlGetCDATA s node =
     (case node of
        None \<Rightarrow> Inr None
      | Some p \<Rightarrow>
          (case load_node s p of
             Inl f \<Rightarrow> Inl f
           | Inr n \<Rightarrow>
               if node_type n \<noteq> MXML_ELEMENT
                  \<or> take 8 (elem_name (v_element (node_value n))) \<noteq> ''![CDATA[''
               then Inr None
               else Inr (Some (drop 8 (elem_name (v_element (node_value n)))))))"

definition mxmlGetCustom :: "mxml_state \<Rightarrow> ptr \<Rightarrow> fault + ptr" where
  "mxmlGetCustom s node =
     (case node of
        None \<Rightarrow> Inr None
      | Some p \<Rightarrow>
          (case load_node s p of
             Inl f \<Rightarrow> Inl f
           | Inr n \<Rightarrow>
               if node_type n = MXML_CUSTOM then Inr (custom_data (v_custom (node_value n)))
               else if node_type n = MXML_ELEMENT then
                 (case node_child n of
                    None \<Rightarrow> Inr None
                  | Some c \<Rightarrow>
                      (case load_node s c of
                         Inl f \<Rightarrow> Inl f
                       | Inr cn \<Rightarrow>
                           if node_type cn = MXML_CUSTOM
                           then Inr (custom_data (v_custom (node_value cn)))
                           else Inr None))
               else Inr None))"

definition mxmlGetElement :: "mxml_state \<Rightarrow> ptr \<Rightarrow> fault + string option" where
  "mxmlGetElement s node =
     (case node of
        None \<Rightarrow> Inr None
      | Some p \<Rightarrow>
          (case load_node s p of
             Inl f \<Rightarrow> Inl f
           | Inr n \<Rightarrow>
               if node_type n \<noteq> MXML_ELEMENT then Inr None
               else Inr (Some (elem_name (v_element (node_value n))))))"

definition mxmlGetFirstChild :: "mxml_state \<Rightarrow> ptr \<Rightarrow> fault + ptr" where
  "mxmlGetFirstChild s node =
     (case node of
        None \<Rightarrow> Inr None
      | Some p \<Rightarrow>
          (case load_node s p of
             Inl f \<Rightarrow> Inl f
           | Inr n \<Rightarrow> if node_type n \<noteq> MXML_ELEMENT then Inr None else Inr (node_child n)))"

definition mxmlGetInteger :: "mxml_state \<Rightarrow> ptr \<Rightarrow> fault + int" where
  "mxmlGetInteger s node =
     (case node of
        None \<Rightarrow> Inr 0
      | Some p \<Rightarrow>
          (case load_node s p of
             Inl f \<Rightarrow> Inl f
           | Inr n \<Rightarrow>
               if node_type n = MXML_INTEGER then Inr (v_integer (node_value n))
               else if node_type n = MXML_ELEMENT then
                 (case node_child n of
                    None \<Rightarrow> Inr 0
                  | Some c \<Rightarrow>
                      (case load_node s c of
                         Inl f \<Rightarrow> Inl f
                       | Inr cn \<Rightarrow>
                           if node_type cn = MXML_INTEGER
                           then Inr (v_integer (node_value cn))
                           else Inr 0))
               else Inr 0))"

definition mxmlGetLastChild :: "mxml_state \<Rightarrow> ptr \<Rightarrow> fault + ptr" where
  "mxmlGetLastChild s node =
     (case node of
        None \<Rightarrow> Inr None
      | Some p \<Rightarrow>
          (case load_node s p of
             Inl f \<Rightarrow> Inl f
           | Inr n \<Rightarrow>
               if node_type n \<noteq> MXML_ELEMENT then Inr None else Inr (node_last_child n)))"

definition mxmlGetNextSibling :: "mxml_state \<Rightarrow> ptr \<Rightarrow> fault + ptr" where
  "mxmlGetNextSibling s node =
     (case node of
        None \<Rightarrow> Inr None
      | Some p \<Rightarrow> (case load_node s p of Inl f \<Rightarrow> Inl f | Inr n \<Rightarrow> Inr (node_next n)))"

definition mxmlGetOpaque :: "mxml_state \<Rightarrow> ptr \<Rightarrow> fault + string option" where
  "mxmlGetOpaque s node =
     (case node of
        None \<Rightarrow> Inr None
      | Some p \<Rightarrow>
          (case load_node s p of
             Inl f \<Rightarrow> Inl f
           | Inr n \<Rightarrow>
               if node_type n = MXML_OPAQUE then Inr (v_opaque (node_value n))
               else if node_type n = MXML_ELEMENT then
                 (case node_child n of
                    None \<Rightarrow> Inr None
                  | Some c \<Rightarrow>
                      (case load_node s c of
                         Inl f \<Rightarrow> Inl f
                       | Inr cn \<Rightarrow>
                           if node_type cn = MXML_OPAQUE
                           then Inr (v_opaque (node_value cn))
                           else Inr None))
               else Inr None))"

definition mxmlGetParent :: "mxml_state \<Rightarrow> ptr \<Rightarrow> fault + ptr" where
  "mxmlGetParent s node =
     (case node of
        None \<Rightarrow> Inr None
      | Some p \<Rightarrow> (case load_node s p of Inl f \<Rightarrow> Inl f | Inr n \<Rightarrow> Inr (node_parent n)))"

definition mxmlGetPrevSibling :: "mxml_state \<Rightarrow> ptr \<Rightarrow> fault + ptr" where
  "mxmlGetPrevSibling s node =
     (case node of
        None \<Rightarrow> Inr None
      | Some p \<Rightarrow> (case load_node s p of Inl f \<Rightarrow> Inl f | Inr n \<Rightarrow> Inr (node_prev n)))"

text \<open>
  \<^verbatim>\<open>mxmlGetText\<close>.  The argument \<open>ws\<close> is the \<^verbatim>\<open>int *whitespace\<close>: \<open>None\<close> is a \<^verbatim>\<open>NULL\<close>
  pointer, \<open>Some w\<close> a pointer to a caller's variable that holds \<open>w\<close>.  The result pairs the
  returned string with the variable after the call.
\<close>

definition mxmlGetText :: "mxml_state \<Rightarrow> ptr \<Rightarrow> int option \<Rightarrow> fault + (string option \<times> int option)" where
  "mxmlGetText s node ws =
     (case node of
        None \<Rightarrow> Inr (None, if ws \<noteq> None then Some 0 else ws)
      | Some p \<Rightarrow>
          (case load_node s p of
             Inl f \<Rightarrow> Inl f
           | Inr n \<Rightarrow>
               if node_type n = MXML_TEXT then
                 Inr (text_string (v_text (node_value n)),
                      if ws \<noteq> None then Some (whitespace (v_text (node_value n))) else ws)
               else if node_type n = MXML_ELEMENT then
                 (case node_child n of
                    None \<Rightarrow> Inr (None, if ws \<noteq> None then Some 0 else ws)
                  | Some c \<Rightarrow>
                      (case load_node s c of
                         Inl f \<Rightarrow> Inl f
                       | Inr cn \<Rightarrow>
                           if node_type cn = MXML_TEXT then
                             Inr (text_string (v_text (node_value cn)),
                                  if ws \<noteq> None then Some (whitespace (v_text (node_value cn)))
                                  else ws)
                           else Inr (None, if ws \<noteq> None then Some 0 else ws)))
               else Inr (None, if ws \<noteq> None then Some 0 else ws)))"

definition mxmlGetType :: "mxml_state \<Rightarrow> ptr \<Rightarrow> fault + mxml_type" where
  "mxmlGetType s node =
     (case node of
        None \<Rightarrow> Inr MXML_IGNORE
      | Some p \<Rightarrow> (case load_node s p of Inl f \<Rightarrow> Inl f | Inr n \<Rightarrow> Inr (node_type n)))"

definition mxmlGetUserData :: "mxml_state \<Rightarrow> ptr \<Rightarrow> fault + ptr" where
  "mxmlGetUserData s node =
     (case node of
        None \<Rightarrow> Inr None
      | Some p \<Rightarrow> (case load_node s p of Inl f \<Rightarrow> Inl f | Inr n \<Rightarrow> Inr (node_user_data n)))"

subsection \<open>Allocation, strings and the error sink\<close>

text \<open>
  The C library primitives the attribute code calls.  \<^verbatim>\<open>strdup\<close> and \<^verbatim>\<open>malloc\<close> ask the
  oracle whether the request fails and otherwise append a cell; \<^verbatim>\<open>realloc\<close> of a live block
  moves it to a fresh cell of the requested number of slots (the old contents first, the rest
  uninitialised) and leaves the old block alone when it fails; \<^verbatim>\<open>free\<close> accepts \<^verbatim>\<open>NULL\<close>
  and live blocks only.
\<close>

definition next_fails :: "bool list \<Rightarrow> bool" where
  "next_fails os = (case os of [] \<Rightarrow> False | b # _ \<Rightarrow> b)"

definition strdup :: "mxml_state \<Rightarrow> string \<Rightarrow> mxml_state \<times> ptr" where
  "strdup s x =
     (if next_fails (oom s) then (s\<lparr>oom := tl (oom s)\<rparr>, None)
      else (s\<lparr>strs := strs s @ [Some x], oom := tl (oom s)\<rparr>, Some (length (strs s))))"

definition free_str :: "mxml_state \<Rightarrow> ptr \<Rightarrow> fault + mxml_state" where
  "free_str s q =
     (case q of
        None \<Rightarrow> Inr s
      | Some a \<Rightarrow>
          (case cell (strs s) a of
             None \<Rightarrow> Inl Invalid_free
           | Some x \<Rightarrow> Inr (s\<lparr>strs := (strs s)[a := None]\<rparr>)))"

definition uninit_attr :: mxml_attr where
  "uninit_attr = \<lparr>attr_name = None, attr_value = None\<rparr>"

definition malloc_attrs :: "mxml_state \<Rightarrow> nat \<Rightarrow> mxml_state \<times> ptr" where
  "malloc_attrs s m =
     (if next_fails (oom s) then (s\<lparr>oom := tl (oom s)\<rparr>, None)
      else (s\<lparr>arrs := arrs s @ [Some (replicate m uninit_attr)], oom := tl (oom s)\<rparr>,
            Some (length (arrs s))))"

text \<open>The slot count is the C expression \<^verbatim>\<open>num_attrs + 1\<close>; a negative one is a request of
  nearly the whole address space once converted to \<^verbatim>\<open>size_t\<close>, which fails.\<close>

definition realloc_attrs :: "mxml_state \<Rightarrow> ptr \<Rightarrow> int \<Rightarrow> fault + (mxml_state \<times> ptr)" where
  "realloc_attrs s q m =
     (case q of
        None \<Rightarrow> Inr (if m < 0 then (s\<lparr>oom := tl (oom s)\<rparr>, None) else malloc_attrs s (nat m))
      | Some a \<Rightarrow>
          (case cell (arrs s) a of
             None \<Rightarrow> Inl Invalid_access
           | Some blk \<Rightarrow>
               if m < 0 \<or> next_fails (oom s) then Inr (s\<lparr>oom := tl (oom s)\<rparr>, None)
               else Inr (s\<lparr>arrs := (arrs s)[a := None]
                                  @ [Some (take (nat m) (blk @ replicate (nat m) uninit_attr))],
                            oom := tl (oom s)\<rparr>,
                         Some (length (arrs s)))))"

definition free_attrs :: "mxml_state \<Rightarrow> ptr \<Rightarrow> fault + mxml_state" where
  "free_attrs s q =
     (case q of
        None \<Rightarrow> Inr s
      | Some a \<Rightarrow>
          (case cell (arrs s) a of
             None \<Rightarrow> Inl Invalid_free
           | Some blk \<Rightarrow> Inr (s\<lparr>arrs := (arrs s)[a := None]\<rparr>)))"

text \<open>Reading and writing the slot \<^verbatim>\<open>base[k]\<close>, and the string behind a \<^verbatim>\<open>char *\<close>.\<close>

definition load_attr :: "mxml_state \<Rightarrow> ptr \<Rightarrow> nat \<Rightarrow> fault + mxml_attr" where
  "load_attr s base k =
     (case base of
        None \<Rightarrow> Inl Invalid_access
      | Some a \<Rightarrow>
          (case cell (arrs s) a of
             None \<Rightarrow> Inl Invalid_access
           | Some blk \<Rightarrow> if k < length blk then Inr (blk ! k) else Inl Invalid_access))"

definition store_attr :: "mxml_state \<Rightarrow> ptr \<Rightarrow> nat \<Rightarrow> mxml_attr \<Rightarrow> fault + mxml_state" where
  "store_attr s base k at =
     (case base of
        None \<Rightarrow> Inl Invalid_access
      | Some a \<Rightarrow>
          (case cell (arrs s) a of
             None \<Rightarrow> Inl Invalid_access
           | Some blk \<Rightarrow>
               if k < length blk then Inr (s\<lparr>arrs := (arrs s)[a := Some (blk[k := at])]\<rparr>)
               else Inl Invalid_access))"

text \<open>\<^verbatim>\<open>memmove(base + dst, base + src, cnt * sizeof(mxml_attr_t))\<close> inside one block.\<close>

definition memmove_attrs :: "mxml_state \<Rightarrow> ptr \<Rightarrow> nat \<Rightarrow> nat \<Rightarrow> nat \<Rightarrow> fault + mxml_state" where
  "memmove_attrs s base dst src cnt =
     (case base of
        None \<Rightarrow> Inl Invalid_access
      | Some a \<Rightarrow>
          (case cell (arrs s) a of
             None \<Rightarrow> Inl Invalid_access
           | Some blk \<Rightarrow>
               if src + cnt \<le> length blk \<and> dst + cnt \<le> length blk then
                 Inr (s\<lparr>arrs := (arrs s)
                        [a := Some (take dst blk @ take cnt (drop src blk) @ drop (dst + cnt) blk)]\<rparr>)
               else Inl Invalid_access))"

definition read_str :: "mxml_state \<Rightarrow> ptr \<Rightarrow> fault + string" where
  "read_str s q =
     (case q of
        None \<Rightarrow> Inl Invalid_access
      | Some a \<Rightarrow> (case cell (strs s) a of None \<Rightarrow> Inl Invalid_access | Some x \<Rightarrow> Inr x))"

text \<open>
  Modelled from the spec: \<^verbatim>\<open>mxml_error\<close> is not among the sources; the error sink accepts a
  formatted diagnostic string.  The message is the source's format
  \<^verbatim>\<open>"Unable to allocate memory for attribute '%s' in element %s!"\<close> with both names filled in.
\<close>

definition mxml_error :: "mxml_state \<Rightarrow> string \<Rightarrow> mxml_state" where
  "mxml_error s msg = s\<lparr>errs := errs s @ [msg]\<rparr>"

definition alloc_message :: "string \<Rightarrow> string \<Rightarrow> string" where
  "alloc_message name elem =
     ''Unable to allocate memory for attribute '' @ [CHR 0x27] @ name @ [CHR 0x27]
       @ '' in element '' @ elem @ ''!''"

text \<open>
  Modelled from the spec: \<^verbatim>\<open>_mxml_vstrdupf\<close> is not among the sources; the collaborator
  \<open>formatValue(format, args)\<close> yields an owned string or none.  \<open>render\<close> is the text the
  \<^verbatim>\<open>printf\<close> conversion produces (none when it produces nothing), which is then duplicated
  into the string heap.
\<close>

definition mxml_vstrdupf ::
  "(string \<Rightarrow> 'a \<Rightarrow> string option) \<Rightarrow> mxml_state \<Rightarrow> string \<Rightarrow> 'a \<Rightarrow> mxml_state \<times> ptr" where
  "mxml_vstrdupf render s format ap =
     (case render format ap of None \<Rightarrow> (s, None) | Some x \<Rightarrow> strdup s x)"

subsection \<open>The attribute store\<close>

text \<open>
  The scan \<^verbatim>\<open>for (i = num_attrs, attr = attrs; i > 0; i--, attr++) if (!strcmp(attr->name, name))\<close>
  that opens \<^verbatim>\<open>mxmlElementDeleteAttr\<close>, \<^verbatim>\<open>mxmlElementGetAttr\<close> and \<^verbatim>\<open>mxml_set_attr\<close>.  It
  yields the loop variables at the first match (\<open>attr = base + k\<close>), or none when the loop
  runs out.
\<close>

function attr_scan ::
  "mxml_state \<Rightarrow> ptr \<Rightarrow> string \<Rightarrow> int \<Rightarrow> nat \<Rightarrow> fault + (int \<times> nat) option" where
  "attr_scan s base name i k =
     (if i > 0 then
        (case load_attr s base k of
           Inl f \<Rightarrow> Inl f
         | Inr at \<Rightarrow>
             (case read_str s (attr_name at) of
                Inl f \<Rightarrow> Inl f
              | Inr x \<Rightarrow>
                  if x = name then Inr (Some (i, k))
                  else attr_scan s base name (i - 1) (k + 1)))
      else Inr None)"
  by pat_completeness auto
termination
  by (relation "measure (\<lambda>(s, base, name, i, k). nat i)") auto

declare attr_scan.simps [simp del]

definition store_node :: "mxml_state \<Rightarrow> addr \<Rightarrow> mxml_node \<Rightarrow> mxml_state" where
  "store_node s p n = s\<lparr>nodes := (nodes s)(p \<mapsto> n)\<rparr>"

definition set_element :: "mxml_node \<Rightarrow> mxml_element \<Rightarrow> mxml_node" where
  "set_element n e = n\<lparr>node_value := V_element e\<rparr>"

definition mxmlElementDeleteAttr :: "mxml_state \<Rightarrow> ptr \<Rightarrow> string option \<Rightarrow> fault + mxml_state" where
  "mxmlElementDeleteAttr s node name =
     (case node of
        None \<Rightarrow> Inr s
      | Some p \<Rightarrow>
          (case load_node s p of
             Inl f \<Rightarrow> Inl f
           | Inr n \<Rightarrow>
               if node_type n \<noteq> MXML_ELEMENT then Inr s
               else
                 (case name of
                    None \<Rightarrow> Inr s
                  | Some nm \<Rightarrow>
                      let e = v_element (node_value n) in
                      (case attr_scan s (attrs e) nm (num_attrs e) 0 of
                         Inl f \<Rightarrow> Inl f
                       | Inr None \<Rightarrow> Inr s
                       | Inr (Some (i, k)) \<Rightarrow>
                           (case load_attr s (attrs e) k of
                              Inl f \<Rightarrow> Inl f
                            | Inr at \<Rightarrow>
                                (case free_str s (attr_name at) of
                                   Inl f \<Rightarrow> Inl f
                                 | Inr s1 \<Rightarrow>
                                     (case free_str s1 (attr_value at) of
                                        Inl f \<Rightarrow> Inl f
                                      | Inr s2 \<Rightarrow>
                                          (case (if i - 1 > 0
                                                 then memmove_attrs s2 (attrs e) k (k + 1) (nat (i - 1))
                                                 else Inr s2) of
                                             Inl f \<Rightarrow> Inl f
                                           | Inr s3 \<Rightarrow>
                                               let s4 = store_node s3 p
                                                      (set_element n (e\<lparr>num_attrs := num_attrs e - 1\<rparr>))
                                               in if num_attrs e - 1 = 0
                                                  then free_attrs s4 (attrs e)
                                                  else Inr s4))))))))"

definition mxmlElementGetAttr :: "mxml_state \<Rightarrow> ptr \<Rightarrow> string option \<Rightarrow> fault + ptr" where
  "mxmlElementGetAttr s node name =
     (case node of
        None \<Rightarrow> Inr None
      | Some p \<Rightarrow>
          (case load_node s p of
             Inl f \<Rightarrow> Inl f
           | Inr n \<Rightarrow>
               if node_type n \<noteq> MXML_ELEMENT then Inr None
               else
                 (case name of
                    None \<Rightarrow> Inr None
                  | Some nm \<Rightarrow>
                      let e = v_element (node_value n) in
                      (case attr_scan s (attrs e) nm (num_attrs e) 0 of
                         Inl f \<Rightarrow> Inl f
                       | Inr None \<Rightarrow> Inr None
                       | Inr (Some (i, k)) \<Rightarrow>
                           (case load_attr s (attrs e) k of
                              Inl f \<Rightarrow> Inl f
                            | Inr at \<Rightarrow> Inr (attr_value at))))))"

text \<open>
  \<^verbatim>\<open>mxmlElementGetAttrByIndex\<close>.  The argument \<open>name\<close> is the \<^verbatim>\<open>const char **name\<close>: \<open>None\<close>
  is a \<^verbatim>\<open>NULL\<close> pointer, \<open>Some c\<close> a pointer to a caller's variable that holds the
  \<^verbatim>\<open>char *\<close> \<open>c\<close>.  The result pairs the returned \<^verbatim>\<open>char *\<close> with the variable after the call.
\<close>

definition mxmlElementGetAttrByIndex ::
  "mxml_state \<Rightarrow> ptr \<Rightarrow> int \<Rightarrow> ptr option \<Rightarrow> fault + (ptr \<times> ptr option)" where
  "mxmlElementGetAttrByIndex s node idx name =
     (case node of
        None \<Rightarrow> Inr (None, name)
      | Some p \<Rightarrow>
          (case load_node s p of
             Inl f \<Rightarrow> Inl f
           | Inr n \<Rightarrow>
               if node_type n \<noteq> MXML_ELEMENT \<or> idx < 0
                  \<or> idx \<ge> num_attrs (v_element (node_value n))
               then Inr (None, name)
               else
                 (case load_attr s (attrs (v_element (node_value n))) (nat idx) of
                    Inl f \<Rightarrow> Inl f
                  | Inr at \<Rightarrow>
                      Inr (attr_value at, if name \<noteq> None then Some (attr_name at) else name))))"

definition mxmlElementGetAttrCount :: "mxml_state \<Rightarrow> ptr \<Rightarrow> fault + int" where
  "mxmlElementGetAttrCount s node =
     (case node of
        None \<Rightarrow> Inr 0
      | Some p \<Rightarrow>
          (case load_node s p of
             Inl f \<Rightarrow> Inl f
           | Inr n \<Rightarrow>
               if node_type n = MXML_ELEMENT then Inr (num_attrs (v_element (node_value n)))
               else Inr 0))"

text \<open>
  \<^verbatim>\<open>mxml_set_attr\<close>: the node is the element its callers have checked; the result carries the
  return code (\<open>0\<close> on success, \<open>-1\<close> on failure).
\<close>

definition mxml_set_attr :: "mxml_state \<Rightarrow> addr \<Rightarrow> string \<Rightarrow> ptr \<Rightarrow> fault + (mxml_state \<times> int)" where
  "mxml_set_attr s p name val =
     (case load_node s p of
        Inl f \<Rightarrow> Inl f
      | Inr n \<Rightarrow>
          let e = v_element (node_value n) in
          (case attr_scan s (attrs e) name (num_attrs e) 0 of
             Inl f \<Rightarrow> Inl f
           | Inr (Some (i, k)) \<Rightarrow>
               (case load_attr s (attrs e) k of
                  Inl f \<Rightarrow> Inl f
                | Inr at \<Rightarrow>
                    (case (if attr_value at \<noteq> None then free_str s (attr_value at) else Inr s) of
                       Inl f \<Rightarrow> Inl f
                     | Inr s1 \<Rightarrow>
                         (case store_attr s1 (attrs e) k (at\<lparr>attr_value := val\<rparr>) of
                            Inl f \<Rightarrow> Inl f
                          | Inr s2 \<Rightarrow> Inr (s2, 0))))
           | Inr None \<Rightarrow>
               (case (if num_attrs e = 0 then Inr (malloc_attrs s 1)
                      else realloc_attrs s (attrs e) (num_attrs e + 1)) of
                  Inl f \<Rightarrow> Inl f
                | Inr (s1, None) \<Rightarrow>
                    Inr (mxml_error s1 (alloc_message name (elem_name e)), - 1)
                | Inr (s1, Some a) \<Rightarrow>
                    let s2 = store_node s1 p (set_element n (e\<lparr>attrs := Some a\<rparr>)) in
                    if num_attrs e < 0 then Inl Invalid_access
                    else
                      (case strdup s2 name of (s3, nmc) \<Rightarrow>
                         (case load_attr s3 (Some a) (nat (num_attrs e)) of
                            Inl f \<Rightarrow> Inl f
                          | Inr at \<Rightarrow>
                              (case store_attr s3 (Some a) (nat (num_attrs e))
                                      (at\<lparr>attr_name := nmc\<rparr>) of
                                 Inl f \<Rightarrow> Inl f
                               | Inr s4 \<Rightarrow>
                                   if nmc = None then
                                     Inr (mxml_error s4 (alloc_message name (elem_name e)), - 1)
                                   else
                                     (case store_attr s4 (Some a) (nat (num_attrs e))
                                             (at\<lparr>attr_name := nmc, attr_value := val\<rparr>) of
                                        Inl f \<Rightarrow> Inl f
                                      | Inr s5 \<Rightarrow>
                                          Inr (store_node s5 p
                                                 (set_element n
                                                    (e\<lparr>attrs := Some a,
                                                       num_attrs := num_attrs e + 1\<rparr>)),
                                               0))))))))"

text \<open>
  \<^verbatim>\<open>mxmlElementSetAttr\<close>: \<open>val\<close> is the caller's \<^verbatim>\<open>const char *value\<close> by content.  The copy
  \<^verbatim>\<open>valuec\<close> is handed over to \<^verbatim>\<open>mxml_set_attr\<close> and freed when that reports failure.
\<close>

definition mxmlElementSetAttr ::
  "mxml_state \<Rightarrow> ptr \<Rightarrow> string option \<Rightarrow> string option \<Rightarrow> fault + mxml_state" where
  "mxmlElementSetAttr s node name val =
     (case node of
        None \<Rightarrow> Inr s
      | Some p \<Rightarrow>
          (case load_node s p of
             Inl f \<Rightarrow> Inl f
           | Inr n \<Rightarrow>
               if node_type n \<noteq> MXML_ELEMENT then Inr s
               else
                 (case name of
                    None \<Rightarrow> Inr s
                  | Some nm \<Rightarrow>
                      (case (case val of None \<Rightarrow> (s, None) | Some v \<Rightarrow> strdup s v) of
                         (s1, valuec) \<Rightarrow>
                           (case mxml_set_attr s1 p nm valuec of
                              Inl f \<Rightarrow> Inl f
                            | Inr (s2, rc) \<Rightarrow>
                                if rc \<noteq> 0 then free_str s2 valuec else Inr s2)))))"

definition mxmlElementSetAttrf ::
  "(string \<Rightarrow> 'a \<Rightarrow> string option) \<Rightarrow> mxml_state \<Rightarrow> ptr \<Rightarrow> string option \<Rightarrow> string option \<Rightarrow> 'a
     \<Rightarrow> fault + mxml_state" where
  "mxmlElementSetAttrf render s node name format ap =
     (case node of
        None \<Rightarrow> Inr s
      | Some p \<Rightarrow>
          (case load_node s p of
             Inl f \<Rightarrow> Inl f
           | Inr n \<Rightarrow>
               if node_type n \<noteq> MXML_ELEMENT then Inr s
               else
                 (case name of
                    None \<Rightarrow> Inr s
                  | Some nm \<Rightarrow>
                      (case format of
                         None \<Rightarrow> Inr s
                       | Some fmt \<Rightarrow>
                           (case mxml_vstrdupf render s fmt ap of
                              (s1, None) \<Rightarrow>
                                Inr (mxml_error s1
                                       (alloc_message nm (elem_name (v_element (node_value n)))))
                            | (s1, Some v) \<Rightarrow>
                                (case mxml_set_attr s1 p nm (Some v) of
                                   Inl f \<Rightarrow> Inl f
                                 | Inr (s2, rc) \<Rightarrow>
                                     if rc \<noteq> 0 then free_str s2 (Some v) else Inr s2))))))"

subsection \<open>The resolution rule of the scalar getters, and an example tree\<close>

text \<open>
  The rule of the spec for the scalar getters, as a function of the requested tag: the node
  itself when it carries the tag, else the first child of an element when that child
  carries it, else nothing.  \<open>child_is_node\<close> says that the \<^verbatim>\<open>child\<close> link, when set, points to
  a node.
\<close>

definition first_child :: "mxml_state \<Rightarrow> mxml_node \<Rightarrow> mxml_node option" where
  "first_child s n = (case node_child n of None \<Rightarrow> None | Some c \<Rightarrow> nodes s c)"

definition spec_resolve :: "mxml_state \<Rightarrow> mxml_node \<Rightarrow> mxml_type \<Rightarrow> mxml_node option" where
  "spec_resolve s n t =
     (if node_type n = t then Some n
      else if node_type n = MXML_ELEMENT then
        (case first_child s n of
           None \<Rightarrow> None
         | Some c \<Rightarrow> if node_type c = t then Some c else None)
      else None)"

definition child_is_node :: "mxml_state \<Rightarrow> mxml_node \<Rightarrow> bool" where
  "child_is_node s n = (case node_child n of None \<Rightarrow> True | Some c \<Rightarrow> nodes s c \<noteq> None)"

definition cdata_marker :: string where
  "cdata_marker = ''![CDATA[''"

definition mk_node :: "mxml_type \<Rightarrow> ptr \<Rightarrow> ptr \<Rightarrow> mxml_value \<Rightarrow> mxml_node" where
  "mk_node t up down v =
     \<lparr>node_type = t, node_next = None, node_prev = None, node_parent = up,
      node_child = down, node_last_child = down, node_value = v, node_user_data = None\<rparr>"

definition mk_element :: "string \<Rightarrow> mxml_value" where
  "mk_element nm = V_element \<lparr>elem_name = nm, num_attrs = 0, attrs = None\<rparr>"

definition ex_tree :: mxml_state where
  "ex_tree =
     \<lparr>nodes = [10 \<mapsto> mk_node MXML_ELEMENT None (Some 11) (mk_element ''outer''),
               11 \<mapsto> mk_node MXML_ELEMENT (Some 10) (Some 12) (mk_element ''inner''),
               12 \<mapsto> mk_node MXML_INTEGER (Some 11) None (V_integer 42),
               13 \<mapsto> mk_node MXML_ELEMENT None None (mk_element (cdata_marker @ ''x < y''))],
      strs = [], arrs = [], oom = [], errs = []\<rparr>"

subsection \<open>What the callers of the attribute functions observe\<close>

text \<open>
  The spec's operations by content: \<open>getAttribute\<close> and \<open>getAttributeByIndex\<close> are the
  source's functions followed by the caller reading the strings behind the pointers it was
  handed (for the index getter the caller's \<^verbatim>\<open>name\<close> variable starts out \<^verbatim>\<open>NULL\<close>, and
  the result is the pair of value and name).
\<close>

definition read_opt :: "mxml_state \<Rightarrow> ptr \<Rightarrow> fault + string option" where
  "read_opt s q =
     (case q of
        None \<Rightarrow> Inr None
      | Some a \<Rightarrow> (case cell (strs s) a of None \<Rightarrow> Inl Invalid_access | Some x \<Rightarrow> Inr (Some x)))"

definition getAttribute :: "mxml_state \<Rightarrow> ptr \<Rightarrow> string option \<Rightarrow> fault + string option" where
  "getAttribute s node name =
     (case mxmlElementGetAttr s node name of Inl f \<Rightarrow> Inl f | Inr q \<Rightarrow> read_opt s q)"

definition getAttributeByIndex ::
  "mxml_state \<Rightarrow> ptr \<Rightarrow> int \<Rightarrow> fault + (string option \<times> string option)" where
  "getAttributeByIndex s node idx =
     (case mxmlElementGetAttrByIndex s node idx (Some None) of
        Inl f \<Rightarrow> Inl f
      | Inr (v, nv) \<Rightarrow>
          (case read_opt s v of
             Inl f \<Rightarrow> Inl f
           | Inr vc \<Rightarrow>
               (case read_opt s (case nv of None \<Rightarrow> None | Some q \<Rightarrow> q) of
                  Inl f \<Rightarrow> Inl f
                | Inr nc \<Rightarrow> Inr (vc, nc))))"

definition getAttributeCount :: "mxml_state \<Rightarrow> ptr \<Rightarrow> fault + int" where
  "getAttributeCount s node = mxmlElementGetAttrCount s node"

subsection \<open>The representation invariant of an attribute store\<close>

text \<open>
  \<open>slots\<close> are the first \<open>num_attrs\<close> slots of the backing array (none are read when the
  counter is zero, whatever the pointer holds).  The store of the element at \<open>p\<close> is well
  formed when the counter is not negative, the array is live and long enough, every slot has a
  name, and the strings the slots point to are live and pairwise different blocks.
  \<open>entries\<close> is the sequence of (name, value) pairs the slots stand for.
\<close>

definition str_at :: "string option list \<Rightarrow> ptr \<Rightarrow> string option" where
  "str_at S q = (case q of None \<Rightarrow> None | Some a \<Rightarrow> cell S a)"

definition owned1 :: "mxml_attr \<Rightarrow> addr list" where
  "owned1 at =
     (case attr_name at of None \<Rightarrow> [] | Some a \<Rightarrow> [a])
     @ (case attr_value at of None \<Rightarrow> [] | Some a \<Rightarrow> [a])"

definition owned :: "mxml_attr list \<Rightarrow> addr list" where
  "owned sl = concat (map owned1 sl)"

definition slots :: "mxml_state \<Rightarrow> mxml_element \<Rightarrow> mxml_attr list option" where
  "slots s e =
     (if num_attrs e \<le> 0 then Some []
      else
        (case attrs e of
           None \<Rightarrow> None
         | Some a \<Rightarrow>
             (case cell (arrs s) a of
                None \<Rightarrow> None
              | Some blk \<Rightarrow>
                  if nat (num_attrs e) \<le> length blk then Some (take (nat (num_attrs e)) blk)
                  else None)))"

definition sound_slots :: "string option list \<Rightarrow> mxml_attr list \<Rightarrow> bool" where
  "sound_slots S sl =
     (list_all (\<lambda>at. attr_name at \<noteq> None) sl
      \<and> list_all (\<lambda>q. cell S q \<noteq> None) (owned sl)
      \<and> distinct (owned sl))"

definition wf_attrs :: "mxml_state \<Rightarrow> addr \<Rightarrow> bool" where
  "wf_attrs s p =
     (case nodes s p of
        None \<Rightarrow> False
      | Some n \<Rightarrow>
          node_type n = MXML_ELEMENT
          \<and> 0 \<le> num_attrs (v_element (node_value n))
          \<and> (case slots s (v_element (node_value n)) of
                None \<Rightarrow> False
              | Some sl \<Rightarrow> sound_slots (strs s) sl))"

definition entry_of :: "string option list \<Rightarrow> mxml_attr \<Rightarrow> string \<times> string option" where
  "entry_of S at = (the (str_at S (attr_name at)), str_at S (attr_value at))"

definition entries :: "mxml_state \<Rightarrow> addr \<Rightarrow> (string \<times> string option) list" where
  "entries s p =
     (case nodes s p of
        None \<Rightarrow> []
      | Some n \<Rightarrow>
          (case slots s (v_element (node_value n)) of
             None \<Rightarrow> []
           | Some sl \<Rightarrow> map (entry_of (strs s)) sl))"

text \<open>
  The invariant with its parts named: the node \<open>n\<close> at \<open>p\<close>, its slots \<open>sl\<close> and, when there
  are any, the address \<open>a\<close> and the contents \<open>blk\<close> of the backing array.
\<close>

definition store_view ::
  "mxml_state \<Rightarrow> addr \<Rightarrow> mxml_node \<Rightarrow> mxml_attr list \<Rightarrow> addr \<Rightarrow> mxml_attr list \<Rightarrow> bool" where
  "store_view s p n sl a blk =
     (nodes s p = Some n \<and> node_type n = MXML_ELEMENT
      \<and> num_attrs (v_element (node_value n)) = int (length sl)
      \<and> sound_slots (strs s) sl
      \<and> (sl \<noteq> [] \<longrightarrow>
            attrs (v_element (node_value n)) = Some a \<and> cell (arrs s) a = Some blk
            \<and> length sl \<le> length blk \<and> take (length sl) blk = sl))"

text \<open>
  The value pointer handed to \<^verbatim>\<open>mxml_set_attr\<close>: \<^verbatim>\<open>NULL\<close>, or a live string that no slot
  points to yet.
\<close>

definition ok_val :: "string option list \<Rightarrow> mxml_attr list \<Rightarrow> ptr \<Rightarrow> bool" where
  "ok_val S sl val =
     (case val of None \<Rightarrow> True | Some va \<Rightarrow> cell S va \<noteq> None \<and> va \<notin> set (owned sl))"

text \<open>
  The statement \<^verbatim>\<open>if (mxml_set_attr(node, name, value)) free(value);\<close> that ends both
  \<^verbatim>\<open>mxmlElementSetAttr\<close> and \<^verbatim>\<open>mxmlElementSetAttrf\<close>.
\<close>

definition set_or_release :: "mxml_state \<Rightarrow> addr \<Rightarrow> string \<Rightarrow> ptr \<Rightarrow> fault + mxml_state" where
  "set_or_release s p nm valuec =
     (case mxml_set_attr s p nm valuec of
        Inl f \<Rightarrow> Inl f
      | Inr (s2, rc) \<Rightarrow> if rc \<noteq> 0 then free_str s2 valuec else Inr s2)"

text \<open>The position of the first occurrence of a name, as the scan finds it.\<close>

fun first_index :: "'a \<Rightarrow> 'a list \<Rightarrow> nat option" where
  "first_index x [] = None"
| "first_index x (y # ys) = (if y = x then Some 0 else map_option Suc (first_index x ys))"


text \<open>
  The spec's description of the two mutators on the sequence of entries: a set replaces the
  value of the entry with that name in place or appends a new entry; a delete removes the
  entry and closes the gap.
\<close>

definition spec_set ::
  "string \<Rightarrow> string option \<Rightarrow> (string \<times> string option) list \<Rightarrow> (string \<times> string option) list" where
  "spec_set nm v al =
     (case first_index nm (map fst al) of
        None \<Rightarrow> al @ [(nm, v)]
      | Some j \<Rightarrow> al[j := (nm, v)])"

definition spec_delete ::
  "string \<Rightarrow> (string \<times> string option) list \<Rightarrow> (string \<times> string option) list" where
  "spec_delete nm al =
     (case first_index nm (map fst al) of
        None \<Rightarrow> al
      | Some j \<Rightarrow> take j al @ drop (Suc j) al)"

subsection \<open>Sequences of store operations and the notions the properties are stated with\<close>

text \<open>The three mutators as data, applied in order to one node; the run stops at a fault.\<close>

datatype 'a attr_op =
  Set_attr "string option" "string option"
| Set_attrf "string option" "string option" 'a
| Delete_attr "string option"

fun apply_op ::
  "(string \<Rightarrow> 'a \<Rightarrow> string option) \<Rightarrow> mxml_state \<Rightarrow> ptr \<Rightarrow> 'a attr_op \<Rightarrow> fault + mxml_state" where
  "apply_op render s node (Set_attr name val) = mxmlElementSetAttr s node name val"
| "apply_op render s node (Set_attrf name format ap)
     = mxmlElementSetAttrf render s node name format ap"
| "apply_op render s node (Delete_attr name) = mxmlElementDeleteAttr s node name"

fun apply_ops ::
  "(string \<Rightarrow> 'a \<Rightarrow> string option) \<Rightarrow> mxml_state \<Rightarrow> ptr \<Rightarrow> 'a attr_op list
     \<Rightarrow> fault + mxml_state" where
  "apply_ops render s node [] = Inr s"
| "apply_ops render s node (x # xs) =
     (case apply_op render s node x of
        Inl f \<Rightarrow> Inl f
      | Inr s' \<Rightarrow> apply_ops render s' node xs)"

text \<open>An element whose attribute set is empty, as the tree-construction collaborator
  hands it over.\<close>

definition empty_element :: "mxml_state \<Rightarrow> addr \<Rightarrow> bool" where
  "empty_element s p =
     (case nodes s p of
        None \<Rightarrow> False
      | Some n \<Rightarrow> node_type n = MXML_ELEMENT \<and> num_attrs (v_element (node_value n)) = 0)"

text \<open>No allocation request to come fails.\<close>

definition no_failure :: "mxml_state \<Rightarrow> bool" where
  "no_failure s = (True \<notin> set (oom s))"

text \<open>The backing array of the element at \<open>p\<close>, and whether a block is live.\<close>

definition backing_array :: "mxml_state \<Rightarrow> addr \<Rightarrow> ptr" where
  "backing_array s p =
     (case nodes s p of None \<Rightarrow> None | Some n \<Rightarrow> attrs (v_element (node_value n)))"

definition array_live :: "mxml_state \<Rightarrow> ptr \<Rightarrow> bool" where
  "array_live s q = (case q of None \<Rightarrow> False | Some a \<Rightarrow> cell (arrs s) a \<noteq> None)"

text \<open>The three getters of the store give the same answers in \<open>s'\<close> as in \<open>s\<close>.\<close>

definition same_attributes :: "mxml_state \<Rightarrow> mxml_state \<Rightarrow> ptr \<Rightarrow> bool" where
  "same_attributes s s' node =
     (getAttributeCount s' node = getAttributeCount s node
      \<and> (\<forall>name. getAttribute s' node name = getAttribute s node name)
      \<and> (\<forall>idx. getAttributeByIndex s' node idx = getAttributeByIndex s node idx))"

text \<open>The index is out of range for \<^verbatim>\<open>mxmlElementGetAttrByIndex\<close>: the node is \<^verbatim>\<open>NULL\<close> or
  not an element, or the index is negative or not below the count.\<close>

definition out_of_range :: "mxml_state \<Rightarrow> ptr \<Rightarrow> int \<Rightarrow> bool" where
  "out_of_range s node idx =
     (case node of
        None \<Rightarrow> True
      | Some p \<Rightarrow>
          (case nodes s p of
             None \<Rightarrow> False
           | Some n \<Rightarrow>
               node_type n \<noteq> MXML_ELEMENT \<or> idx < 0
               \<or> idx \<ge> num_attrs (v_element (node_value n))))"

text \<open>What the count and a lookup are after one \<^verbatim>\<open>mxmlElementSetAttr\<close>.\<close>

definition count_after_set ::
  "mxml_state \<Rightarrow> ptr \<Rightarrow> string option \<Rightarrow> string option \<Rightarrow> fault + int" where
  "count_after_set s node name val =
     (case mxmlElementSetAttr s node name val of
        Inl f \<Rightarrow> Inl f
      | Inr s' \<Rightarrow> getAttributeCount s' node)"

definition get_after_set ::
  "mxml_state \<Rightarrow> ptr \<Rightarrow> string option \<Rightarrow> string option \<Rightarrow> string option
     \<Rightarrow> fault + string option" where
  "get_after_set s node name val key =
     (case mxmlElementSetAttr s node name val of
        Inl f \<Rightarrow> Inl f
      | Inr s' \<Rightarrow> getAttribute s' node key)"

text \<open>An example state: one element named \<open>item\<close> at address 20 with no attributes.\<close>

definition ex_store :: mxml_state where
  "ex_store =
     \<lparr>nodes = [20 \<mapsto> mk_node MXML_ELEMENT None None (mk_element ''item'')],
      strs = [], arrs = [], oom = [], errs = []\<rparr>"

text \<open>
  Of the two requests \<^verbatim>\<open>mxml_set_attr\<close> makes for a new name, the one for the array fails,
  or the one for the copy of the name does.
\<close>

definition grow_fails :: "bool list \<Rightarrow> bool" where
  "grow_fails os = (next_fails os \<or> next_fails (tl os))"

text \<open>The example element in a state whose second allocation request fails.\<close>

definition ex_store_oom :: mxml_state where
  "ex_store_oom = ex_store\<lparr>oom := [False, True]\<rparr>"

section \<open>Properties of the node get functions\<close>

lemma load_node_Some: "nodes s p = Some n \<Longrightarrow> load_node s p = Inr n"
  by (simp add: load_node_def)

lemma getInteger_resolve:
  assumes "nodes s p = Some n" and "child_is_node s n"
  shows "mxmlGetInteger s (Some p)
         = Inr (case spec_resolve s n MXML_INTEGER of
                  None \<Rightarrow> 0 | Some m \<Rightarrow> v_integer (node_value m))"
  using assms
  by (auto simp: mxmlGetInteger_def load_node_def spec_resolve_def first_child_def
      child_is_node_def split: option.splits)

lemma getOpaque_resolve:
  assumes "nodes s p = Some n" and "child_is_node s n"
  shows "mxmlGetOpaque s (Some p)
         = Inr (case spec_resolve s n MXML_OPAQUE of
                  None \<Rightarrow> None | Some m \<Rightarrow> v_opaque (node_value m))"
  using assms
  by (auto simp: mxmlGetOpaque_def load_node_def spec_resolve_def first_child_def
      child_is_node_def split: option.splits)

lemma getCustom_resolve:
  assumes "nodes s p = Some n" and "child_is_node s n"
  shows "mxmlGetCustom s (Some p)
         = Inr (case spec_resolve s n MXML_CUSTOM of
                  None \<Rightarrow> None | Some m \<Rightarrow> custom_data (v_custom (node_value m)))"
  using assms
  by (auto simp: mxmlGetCustom_def load_node_def spec_resolve_def first_child_def
      child_is_node_def split: option.splits)

lemma getText_resolve:
  assumes "nodes s p = Some n" and "child_is_node s n"
  shows "mxmlGetText s (Some p) ws
         = Inr (case spec_resolve s n MXML_TEXT of
                  None \<Rightarrow> (None, map_option (\<lambda>w. 0) ws)
                | Some m \<Rightarrow> (text_string (v_text (node_value m)),
                             map_option (\<lambda>w. whitespace (v_text (node_value m))) ws))"
  using assms
  by (cases ws)
     (auto simp: mxmlGetText_def load_node_def spec_resolve_def first_child_def
      child_is_node_def split: option.splits)

lemma getInteger_grandchild:
  assumes "nodes s p = Some n" "node_type n = MXML_ELEMENT"
    "node_child n = Some c" "nodes s c = Some cn" "node_type cn = MXML_ELEMENT"
  shows "mxmlGetInteger s (Some p) = Inr 0"
  using assms by (simp add: mxmlGetInteger_def load_node_def)

text \<open>
  Claim C2.  For a node \<open>n\<close> whose \<^verbatim>\<open>child\<close> link, when set, points to a node, each of
  \<^verbatim>\<open>mxmlGetInteger\<close>, \<^verbatim>\<open>mxmlGetOpaque\<close>, \<^verbatim>\<open>mxmlGetCustom\<close> and \<^verbatim>\<open>mxmlGetText\<close> returns the
  value of the node that the resolution rule selects for its tag (the node itself, else the
  first child of an element) and the sentinel (\<open>0\<close>, \<^verbatim>\<open>NULL\<close>) when the rule selects
  nothing.  An element whose first child is an element that wraps an integer grandchild
  yields \<open>0\<close>: the search never goes past the first child.
\<close>

theorem scalar_getters_first_child_only:
  assumes "nodes s p = Some n" and "child_is_node s n"
  shows "mxmlGetInteger s (Some p)
           = Inr (case spec_resolve s n MXML_INTEGER of
                    None \<Rightarrow> 0 | Some m \<Rightarrow> v_integer (node_value m))
       \<and> mxmlGetOpaque s (Some p)
           = Inr (case spec_resolve s n MXML_OPAQUE of
                    None \<Rightarrow> None | Some m \<Rightarrow> v_opaque (node_value m))
       \<and> mxmlGetCustom s (Some p)
           = Inr (case spec_resolve s n MXML_CUSTOM of
                    None \<Rightarrow> None | Some m \<Rightarrow> custom_data (v_custom (node_value m)))
       \<and> mxmlGetText s (Some p) ws
           = Inr (case spec_resolve s n MXML_TEXT of
                    None \<Rightarrow> (None, map_option (\<lambda>w. 0) ws)
                  | Some m \<Rightarrow> (text_string (v_text (node_value m)),
                               map_option (\<lambda>w. whitespace (v_text (node_value m))) ws))
       \<and> (\<forall>c cn g gn.
            node_type n = MXML_ELEMENT \<and> node_child n = Some c \<and> nodes s c = Some cn
            \<and> node_type cn = MXML_ELEMENT \<and> node_child cn = Some g \<and> nodes s g = Some gn
            \<and> node_type gn = MXML_INTEGER
            \<longrightarrow> mxmlGetInteger s (Some p) = Inr 0)"
  using getInteger_resolve[OF assms] getOpaque_resolve[OF assms] getCustom_resolve[OF assms]
    getText_resolve[OF assms] getInteger_grandchild[OF assms(1)]
  by blast

lemma mk_node_sel [simp]:
  "node_type (mk_node t u d v) = t" "node_child (mk_node t u d v) = d"
  "node_value (mk_node t u d v) = v"
  by (simp_all add: mk_node_def)

lemma ex_tree_nodes:
  "nodes ex_tree 10 = Some (mk_node MXML_ELEMENT None (Some 11) (mk_element ''outer''))"
  "nodes ex_tree 11 = Some (mk_node MXML_ELEMENT (Some 10) (Some 12) (mk_element ''inner''))"
  "nodes ex_tree 12 = Some (mk_node MXML_INTEGER (Some 11) None (V_integer 42))"
  "nodes ex_tree 13 = Some (mk_node MXML_ELEMENT None None (mk_element (cdata_marker @ ''x < y'')))"
  by (simp_all add: ex_tree_def)

lemma ex_tree_child_is_node:
  "child_is_node ex_tree (mk_node MXML_ELEMENT None (Some 11) (mk_element ''outer''))"
  "child_is_node ex_tree (mk_node MXML_ELEMENT (Some 10) (Some 12) (mk_element ''inner''))"
  by (simp_all add: child_is_node_def ex_tree_nodes)

theorem scalar_getters_first_child_only_witness:
  "nodes ex_tree 10 = Some (mk_node MXML_ELEMENT None (Some 11) (mk_element ''outer''))
   \<and> child_is_node ex_tree (mk_node MXML_ELEMENT None (Some 11) (mk_element ''outer''))
   \<and> mxmlGetInteger ex_tree (Some 10) = Inr 0
   \<and> mxmlGetOpaque ex_tree (Some 10) = Inr None
   \<and> mxmlGetText ex_tree (Some 10) (Some 7) = Inr (None, Some 0)
   \<and> mxmlGetInteger ex_tree (Some 11) = Inr 42"
  using scalar_getters_first_child_only[OF ex_tree_nodes(1) ex_tree_child_is_node(1), of "Some 7"]
    scalar_getters_first_child_only[OF ex_tree_nodes(2) ex_tree_child_is_node(2), of None]
  by (simp add: ex_tree_nodes ex_tree_child_is_node spec_resolve_def first_child_def)

lemma getCDATA_unfold:
  "mxmlGetCDATA s (Some p) =
     (case nodes s p of
        None \<Rightarrow> Inl Invalid_access
      | Some n \<Rightarrow>
          if node_type n \<noteq> MXML_ELEMENT
             \<or> take 8 (elem_name (v_element (node_value n))) \<noteq> cdata_marker
          then Inr None
          else Inr (Some (drop 8 (elem_name (v_element (node_value n))))))"
  by (simp add: mxmlGetCDATA_def load_node_def cdata_marker_def split: option.splits)

lemma length_cdata_marker: "length cdata_marker = 8"
  by (simp add: cdata_marker_def)

lemma take_marker_iff: "take 8 x = cdata_marker \<longleftrightarrow> (\<exists>rest. x = cdata_marker @ rest)"
proof
  assume "take 8 x = cdata_marker"
  then have "x = cdata_marker @ drop 8 x"
    by (metis append_take_drop_id)
  then show "\<exists>rest. x = cdata_marker @ rest" ..
next
  assume "\<exists>rest. x = cdata_marker @ rest"
  then show "take 8 x = cdata_marker" by (auto simp: length_cdata_marker)
qed

text \<open>
  Claim C7.  \<^verbatim>\<open>mxmlGetCDATA\<close> returns a string exactly for an element whose name starts with
  the marker \<^verbatim>\<open>![CDATA[\<close>, and then the rest of the name after the marker; every other node
  yields \<^verbatim>\<open>NULL\<close>, whatever its children are.  On the marked element \<^verbatim>\<open>mxmlGetElement\<close>
  returns the stored name, marker included.
\<close>

theorem getCDATA_by_name_prefix:
  assumes "nodes s p = Some n"
  shows "(node_type n = MXML_ELEMENT \<longrightarrow>
           (\<forall>rest. elem_name (v_element (node_value n)) = cdata_marker @ rest \<longrightarrow>
              mxmlGetCDATA s (Some p) = Inr (Some rest)
              \<and> mxmlGetElement s (Some p) = Inr (Some (cdata_marker @ rest))))
       \<and> (node_type n \<noteq> MXML_ELEMENT \<longrightarrow> mxmlGetCDATA s (Some p) = Inr None)
       \<and> ((\<forall>rest. elem_name (v_element (node_value n)) \<noteq> cdata_marker @ rest) \<longrightarrow>
            mxmlGetCDATA s (Some p) = Inr None)
       \<and> (\<forall>r. mxmlGetCDATA s (Some p) = Inr (Some r) \<longrightarrow>
            node_type n = MXML_ELEMENT
            \<and> elem_name (v_element (node_value n)) = cdata_marker @ r)"
proof (intro conjI impI allI)
  fix rest
  assume "node_type n = MXML_ELEMENT"
    and "elem_name (v_element (node_value n)) = cdata_marker @ rest"
  then show "mxmlGetCDATA s (Some p) = Inr (Some rest)"
    using assms by (simp add: getCDATA_unfold length_cdata_marker)
next
  fix rest
  assume "node_type n = MXML_ELEMENT"
    and "elem_name (v_element (node_value n)) = cdata_marker @ rest"
  then show "mxmlGetElement s (Some p) = Inr (Some (cdata_marker @ rest))"
    using assms by (simp add: mxmlGetElement_def load_node_def)
next
  assume "node_type n \<noteq> MXML_ELEMENT"
  then show "mxmlGetCDATA s (Some p) = Inr None"
    using assms by (simp add: getCDATA_unfold)
next
  assume "\<forall>rest. elem_name (v_element (node_value n)) \<noteq> cdata_marker @ rest"
  then have "take 8 (elem_name (v_element (node_value n))) \<noteq> cdata_marker"
    by (simp add: take_marker_iff)
  then show "mxmlGetCDATA s (Some p) = Inr None"
    using assms by (simp add: getCDATA_unfold)
next
  fix r
  assume r: "mxmlGetCDATA s (Some p) = Inr (Some r)"
  then show "node_type n = MXML_ELEMENT"
    using assms by (simp add: getCDATA_unfold split: if_splits)
  from r have "take 8 (elem_name (v_element (node_value n))) = cdata_marker"
    and "r = drop 8 (elem_name (v_element (node_value n)))"
    using assms by (auto simp: getCDATA_unfold split: if_splits)
  then show "elem_name (v_element (node_value n)) = cdata_marker @ r"
    by (metis append_take_drop_id)
qed

theorem getCDATA_by_name_prefix_witness:
  "nodes ex_tree 13 = Some (mk_node MXML_ELEMENT None None (mk_element (cdata_marker @ ''x < y'')))
   \<and> mxmlGetCDATA ex_tree (Some 13) = Inr (Some ''x < y'')
   \<and> mxmlGetElement ex_tree (Some 13) = Inr (Some (cdata_marker @ ''x < y''))
   \<and> mxmlGetCDATA ex_tree (Some 12) = Inr None"
proof -
  let ?n = "mk_node MXML_ELEMENT None None (mk_element (cdata_marker @ ''x < y''))"
  have e: "elem_name (v_element (node_value ?n)) = cdata_marker @ ''x < y''"
    by (simp add: mk_element_def)
  have t: "node_type ?n = MXML_ELEMENT"
    by simp
  from getCDATA_by_name_prefix[OF ex_tree_nodes(4)] t e
  have "mxmlGetCDATA ex_tree (Some 13) = Inr (Some ''x < y'')
        \<and> mxmlGetElement ex_tree (Some 13) = Inr (Some (cdata_marker @ ''x < y''))"
    by blast
  moreover have "node_type (mk_node MXML_INTEGER (Some 11) None (V_integer 42)) \<noteq> MXML_ELEMENT"
    by simp
  with getCDATA_by_name_prefix[OF ex_tree_nodes(3)]
  have "mxmlGetCDATA ex_tree (Some 12) = Inr None"
    by blast
  ultimately show ?thesis
    using ex_tree_nodes(4) by blast
qed

text \<open>
  Claim C8.  Every get function applied to a \<^verbatim>\<open>NULL\<close> node returns its sentinel and
  dereferences nothing: \<^verbatim>\<open>mxmlGetType\<close> yields \<^verbatim>\<open>MXML_IGNORE\<close>, \<^verbatim>\<open>mxmlGetInteger\<close> yields
  \<open>0\<close>, the others yield \<^verbatim>\<open>NULL\<close>, and \<^verbatim>\<open>mxmlGetText\<close> stores \<open>0\<close> through a non-null
  \<^verbatim>\<open>whitespace\<close> pointer.
\<close>

theorem getters_null_node:
  "mxmlGetCDATA s None = Inr None
   \<and> mxmlGetCustom s None = Inr None
   \<and> mxmlGetElement s None = Inr None
   \<and> mxmlGetInteger s None = Inr 0
   \<and> mxmlGetOpaque s None = Inr None
   \<and> mxmlGetText s None None = Inr (None, None)
   \<and> mxmlGetText s None (Some w) = Inr (None, Some 0)
   \<and> mxmlGetType s None = Inr MXML_IGNORE
   \<and> mxmlGetParent s None = Inr None
   \<and> mxmlGetNextSibling s None = Inr None
   \<and> mxmlGetPrevSibling s None = Inr None
   \<and> mxmlGetFirstChild s None = Inr None
   \<and> mxmlGetLastChild s None = Inr None
   \<and> mxmlGetUserData s None = Inr None"
  by (simp add: mxmlGetCDATA_def mxmlGetCustom_def mxmlGetElement_def mxmlGetInteger_def
      mxmlGetOpaque_def mxmlGetText_def mxmlGetType_def mxmlGetParent_def
      mxmlGetNextSibling_def mxmlGetPrevSibling_def mxmlGetFirstChild_def
      mxmlGetLastChild_def mxmlGetUserData_def)

theorem getters_null_node_witness:
  "mxmlGetType ex_tree None = Inr MXML_IGNORE
   \<and> mxmlGetText ex_tree None (Some 1) = Inr (None, Some 0)
   \<and> mxmlGetInteger ex_tree None = Inr 0
   \<and> mxmlGetFirstChild ex_tree None = Inr None"
  using getters_null_node[of ex_tree 1] by simp

section \<open>The attribute store keeps its invariant\<close>

subsection \<open>Heap cells\<close>

lemma cell_Some_less: "cell h a = Some x \<Longrightarrow> a < length h"
  by (simp add: cell_def split: if_splits)

lemma cell_length [simp]: "cell h (length h) = None"
  by (simp add: cell_def)

lemma cell_update:
  "cell (h[a := v]) b = (if b = a then (if a < length h then v else None) else cell h b)"
  by (simp add: cell_def)

lemma cell_snoc: "cell (h @ [v]) b = (if b = length h then v else cell h b)"
  by (simp add: cell_def nth_append)

lemma cell_update_snoc:
  "cell (h[a := u] @ [v]) b
     = (if b = length h then v else if b = a then (if a < length h then u else None) else cell h b)"
  by (simp add: cell_def nth_append)

subsection \<open>first_index\<close>

lemma first_index_None: "first_index x xs = None \<longleftrightarrow> x \<notin> set xs"
  by (induction xs) auto

lemma first_index_Some:
  "first_index x xs = Some j \<Longrightarrow> j < length xs \<and> xs ! j = x \<and> x \<notin> set (take j xs)"
proof (induction xs arbitrary: j)
  case Nil
  then show ?case by simp
next
  case (Cons y ys)
  show ?case
  proof (cases "y = x")
    case True
    with Cons.prems show ?thesis by simp
  next
    case False
    with Cons.prems obtain j' where j': "first_index x ys = Some j'" "j = Suc j'"
      by auto
    from Cons.IH[OF j'(1)] False j'(2) show ?thesis by auto
  qed
qed

lemma first_index_append_hit:
  "x \<notin> set pre \<Longrightarrow> first_index x (pre @ x # post) = Some (length pre)"
  by (induction pre) auto

lemma first_index_snoc_miss:
  "first_index x xs = None \<Longrightarrow> first_index y (xs @ [x]) = (if y = x then Some (length xs) else first_index y xs)"
  by (induction xs) (auto split: if_splits)

subsection \<open>Owned strings\<close>

lemma owned_Nil [simp]: "owned [] = []"
  by (simp add: owned_def)

lemma owned_Cons [simp]: "owned (at # sl) = owned1 at @ owned sl"
  by (simp add: owned_def)

lemma owned_append [simp]: "owned (xs @ ys) = owned xs @ owned ys"
  by (simp add: owned_def)

lemma owned1_subset: "at \<in> set sl \<Longrightarrow> set (owned1 at) \<subseteq> set (owned sl)"
  by (auto simp: owned_def)

lemma name_owned1: "attr_name at = Some q \<Longrightarrow> q \<in> set (owned1 at)"
  by (simp add: owned1_def)

lemma value_owned1: "attr_value at = Some q \<Longrightarrow> q \<in> set (owned1 at)"
  by (simp add: owned1_def)

lemma sound_slots_Nil [simp]: "sound_slots S []"
  by (simp add: sound_slots_def)

lemma sound_slots_name:
  assumes "sound_slots S sl" and "at \<in> set sl"
  obtains q x where "attr_name at = Some q" "cell S q = Some x"
proof -
  from assms obtain q where q: "attr_name at = Some q"
    by (auto simp: sound_slots_def list_all_iff)
  with assms(2) have "q \<in> set (owned sl)"
    using owned1_subset name_owned1 by blast
  with assms(1) obtain x where "cell S q = Some x"
    by (auto simp: sound_slots_def list_all_iff)
  with q that show thesis by blast
qed

lemma sound_slots_value:
  assumes "sound_slots S sl" and "at \<in> set sl" and "attr_value at = Some q"
  obtains x where "cell S q = Some x"
proof -
  from assms(2,3) have "q \<in> set (owned sl)"
    using owned1_subset value_owned1 by blast
  with assms(1) obtain x where "cell S q = Some x"
    by (auto simp: sound_slots_def list_all_iff)
  with that show thesis by blast
qed

lemma sound_slots_frame:
  assumes "sound_slots S sl" and "\<And>q. q \<in> set (owned sl) \<Longrightarrow> cell S' q = cell S q"
  shows "sound_slots S' sl"
  using assms by (simp add: sound_slots_def list_all_iff)

lemma entry_of_frame:
  assumes "\<And>q. q \<in> set (owned1 at) \<Longrightarrow> cell S' q = cell S q"
  shows "entry_of S' at = entry_of S at"
proof -
  have "str_at S' (attr_name at) = str_at S (attr_name at)"
    using assms by (cases "attr_name at") (simp_all add: str_at_def owned1_def)
  moreover have "str_at S' (attr_value at) = str_at S (attr_value at)"
    using assms by (cases "attr_value at") (simp_all add: str_at_def owned1_def)
  ultimately show ?thesis by (simp add: entry_of_def)
qed

lemma entries_frame:
  assumes "\<And>q. q \<in> set (owned sl) \<Longrightarrow> cell S' q = cell S q"
  shows "map (entry_of S') sl = map (entry_of S) sl"
proof (rule map_cong[OF refl])
  fix at assume "at \<in> set sl"
  then have "set (owned1 at) \<subseteq> set (owned sl)" by (rule owned1_subset)
  then show "entry_of S' at = entry_of S at"
    using assms by (intro entry_of_frame) blast
qed

subsection \<open>Unpacking and establishing the invariant\<close>

lemma wf_view:
  assumes "wf_attrs s p"
  shows "\<exists>n sl a blk. store_view s p n sl a blk"
proof -
  from assms obtain n where n: "nodes s p = Some n" "node_type n = MXML_ELEMENT"
    "0 \<le> num_attrs (v_element (node_value n))"
    by (auto simp: wf_attrs_def split: option.splits)
  let ?e = "v_element (node_value n)"
  from assms n obtain sl where sl: "slots s ?e = Some sl" "sound_slots (strs s) sl"
    by (auto simp: wf_attrs_def split: option.splits)
  have len: "num_attrs ?e = int (length sl)"
    using sl(1) n(3) by (auto simp: slots_def split: if_splits option.splits)
  have "\<exists>a blk. sl \<noteq> [] \<longrightarrow> attrs ?e = Some a \<and> cell (arrs s) a = Some blk
      \<and> length sl \<le> length blk \<and> take (length sl) blk = sl"
    using sl(1) by (auto simp: slots_def split: if_splits option.splits)
  then show ?thesis
    using n(1,2) len sl(2) unfolding store_view_def by blast
qed

lemma view_wf_entries:
  assumes "store_view s p n sl a blk"
  shows "wf_attrs s p \<and> entries s p = map (entry_of (strs s)) sl"
proof (cases "sl = []")
  case True
  with assms show ?thesis
    by (simp add: store_view_def wf_attrs_def entries_def slots_def)
next
  case False
  then have pos: "\<not> num_attrs (v_element (node_value n)) \<le> 0"
    using assms by (simp add: store_view_def)
  have "slots s (v_element (node_value n)) = Some sl"
    using assms False pos by (simp add: store_view_def slots_def)
  with assms show ?thesis
    by (simp add: store_view_def wf_attrs_def entries_def)
qed

lemma view_wf: "store_view s p n sl a blk \<Longrightarrow> wf_attrs s p"
  by (simp add: view_wf_entries)

lemma view_entries: "store_view s p n sl a blk \<Longrightarrow> entries s p = map (entry_of (strs s)) sl"
  by (simp add: view_wf_entries)

lemma view_node: "store_view s p n sl a blk \<Longrightarrow> nodes s p = Some n \<and> node_type n = MXML_ELEMENT"
  by (simp add: store_view_def)

lemma view_count:
  "store_view s p n sl a blk \<Longrightarrow> num_attrs (v_element (node_value n)) = int (length sl)"
  by (simp add: store_view_def)

lemma view_sound: "store_view s p n sl a blk \<Longrightarrow> sound_slots (strs s) sl"
  by (simp add: store_view_def)

lemma view_block:
  assumes "store_view s p n sl a blk" "j < length sl"
  shows "attrs (v_element (node_value n)) = Some a" "cell (arrs s) a = Some blk"
    "length sl \<le> length blk" "take (length sl) blk = sl" "blk ! j = sl ! j"
    "load_attr s (Some a) j = Inr (sl ! j)" "sl ! j \<in> set sl"
proof -
  from assms(2) have ne: "sl \<noteq> []" by auto
  with assms(1) show b: "attrs (v_element (node_value n)) = Some a" "cell (arrs s) a = Some blk"
    "length sl \<le> length blk" "take (length sl) blk = sl"
    by (simp_all add: store_view_def)
  show at: "blk ! j = sl ! j" using b(4) assms(2) by (metis nth_take)
  show "load_attr s (Some a) j = Inr (sl ! j)"
    using b(2,3) assms(2) at by (simp add: load_attr_def)
  show "sl ! j \<in> set sl" using assms(2) by simp
qed

subsection \<open>The scan\<close>

lemma attr_scan_zero: "i \<le> 0 \<Longrightarrow> attr_scan s base nm i k = Inr None"
  by (subst attr_scan.simps) simp

lemma attr_scan_step:
  assumes "0 < i" "load_attr s base k = Inr at" "read_str s (attr_name at) = Inr x"
  shows "attr_scan s base nm i k
         = (if x = nm then Inr (Some (i, k)) else attr_scan s base nm (i - 1) (k + 1))"
  using assms by (subst attr_scan.simps) simp

lemma load_attr_live:
  "cell (arrs s) a = Some blk \<Longrightarrow> k < length blk \<Longrightarrow> load_attr s (Some a) k = Inr (blk ! k)"
  by (simp add: load_attr_def)

lemma read_str_live: "cell (strs s) q = Some x \<Longrightarrow> read_str s (Some q) = Inr x"
  by (simp add: read_str_def)

lemma attr_scan_block:
  assumes blk: "cell (arrs s) a = Some blk" "length sl \<le> length blk" "take (length sl) blk = sl"
    and snd: "sound_slots (strs s) sl"
    and k: "k \<le> length sl"
  shows "attr_scan s (Some a) nm (int (length sl) - int k) k
         = Inr (case first_index nm (drop k (map fst (map (entry_of (strs s)) sl))) of
                  None \<Rightarrow> None
                | Some j \<Rightarrow> Some (int (length sl) - int (k + j), k + j))"
  using k
proof (induction "length sl - k" arbitrary: k)
  case 0
  then have "k = length sl" by simp
  then show ?case by (simp add: attr_scan_zero)
next
  case (Suc d)
  then have klt: "k < length sl" by simp
  have at: "blk ! k = sl ! k"
    using blk(3) klt by (metis nth_take)
  have mem: "sl ! k \<in> set sl" using klt by simp
  obtain q x where q: "attr_name (sl ! k) = Some q" "cell (strs s) q = Some x"
    using sound_slots_name[OF snd mem] by blast
  have ld: "load_attr s (Some a) k = Inr (sl ! k)"
    using load_attr_live[OF blk(1), of k] klt blk(2) at by simp
  have rd: "read_str s (attr_name (sl ! k)) = Inr x"
    using q by (simp add: read_str_live)
  have pos: "0 < int (length sl) - int k" using klt by simp
  have nmk: "fst (entry_of (strs s) (sl ! k)) = x"
    using q by (simp add: entry_of_def str_at_def)
  have dr: "drop k (map fst (map (entry_of (strs s)) sl))
            = x # drop (Suc k) (map fst (map (entry_of (strs s)) sl))"
    using klt nmk by (simp add: Cons_nth_drop_Suc[symmetric])
  show ?case
  proof (cases "x = nm")
    case True
    then show ?thesis
      using attr_scan_step[OF pos ld rd, of nm] dr by simp
  next
    case False
    have d: "d = length sl - Suc k" using Suc.hyps(2) by simp
    have kk: "Suc k \<le> length sl" using klt by simp
    have eq: "int (length sl) - int k - 1 = int (length sl) - int (Suc k)" by simp
    from Suc.hyps(1)[OF d kk] False show ?thesis
      using attr_scan_step[OF pos ld rd, of nm] dr eq
      by (simp split: option.splits)
  qed
qed

lemma attr_scan_view:
  assumes "store_view s p n sl a blk"
  shows "attr_scan s (attrs (v_element (node_value n))) nm
            (num_attrs (v_element (node_value n))) 0
         = Inr (case first_index nm (map fst (entries s p)) of
                  None \<Rightarrow> None
                | Some j \<Rightarrow> Some (int (length sl) - int j, j))"
proof (cases "sl = []")
  case True
  then show ?thesis
    using view_count[OF assms] view_entries[OF assms] by (simp add: attr_scan_zero)
next
  case False
  then have "0 < length sl" by simp
  note b = view_block[OF assms this]
  from attr_scan_block[OF b(2,3,4) view_sound[OF assms], of 0 nm] show ?thesis
    using view_count[OF assms] view_entries[OF assms] b(1) by (simp split: option.splits)
qed

subsection \<open>The getters read the entries\<close>

lemma getAttributeCount_wf:
  assumes "wf_attrs s p"
  shows "getAttributeCount s (Some p) = Inr (int (length (entries s p)))"
proof -
  from wf_view[OF assms] obtain n sl a blk where v: "store_view s p n sl a blk"
    by blast
  show ?thesis
    using view_node[OF v] view_count[OF v] view_entries[OF v]
    by (simp add: getAttributeCount_def mxmlElementGetAttrCount_def load_node_def)
qed

lemma read_opt_sound:
  assumes "sound_slots (strs s) sl" "at \<in> set sl"
  shows "read_opt s (attr_name at) = Inr (Some (fst (entry_of (strs s) at)))"
    and "read_opt s (attr_value at) = Inr (snd (entry_of (strs s) at))"
proof -
  obtain q x where q: "attr_name at = Some q" "cell (strs s) q = Some x"
    using sound_slots_name[OF assms] by blast
  then show "read_opt s (attr_name at) = Inr (Some (fst (entry_of (strs s) at)))"
    by (simp add: read_opt_def entry_of_def str_at_def)
  show "read_opt s (attr_value at) = Inr (snd (entry_of (strs s) at))"
  proof (cases "attr_value at")
    case None
    then show ?thesis by (simp add: read_opt_def entry_of_def str_at_def)
  next
    case (Some v)
    then obtain y where "cell (strs s) v = Some y"
      using sound_slots_value[OF assms] by blast
    with Some show ?thesis by (simp add: read_opt_def entry_of_def str_at_def)
  qed
qed

lemma GetAttrByIndex_wf:
  assumes "wf_attrs s p" "i < length (entries s p)"
  shows "\<exists>at::mxml_attr. mxmlElementGetAttrByIndex s (Some p) (int i) nv
              = Inr (attr_value at, if nv \<noteq> None then Some (attr_name at) else nv)
            \<and> read_opt s (attr_name at) = Inr (Some (fst (entries s p ! i)))
            \<and> read_opt s (attr_value at) = Inr (snd (entries s p ! i))"
proof -
  from wf_view[OF assms(1)] obtain n sl a blk where v: "store_view s p n sl a blk"
    by blast
  note e = view_entries[OF v]
  from assms(2) e have i: "i < length sl" by simp
  note b = view_block[OF v i]
  have A: "mxmlElementGetAttrByIndex s (Some p) (int i) nv
        = Inr (attr_value (sl ! i), if nv \<noteq> None then Some (attr_name (sl ! i)) else nv)"
    using view_node[OF v] view_count[OF v] b(1,6) i
    by (simp add: mxmlElementGetAttrByIndex_def load_node_def)
  have B: "read_opt s (attr_name (sl ! i)) = Inr (Some (fst (entries s p ! i)))"
    using read_opt_sound(1)[OF view_sound[OF v] b(7)] e i by simp
  have C: "read_opt s (attr_value (sl ! i)) = Inr (snd (entries s p ! i))"
    using read_opt_sound(2)[OF view_sound[OF v] b(7)] e i by simp
  show ?thesis
    by (rule exI[of _ "sl ! i"]) (simp add: A B C)
qed

lemma getAttributeByIndex_wf:
  assumes "wf_attrs s p" "i < length (entries s p)"
  shows "getAttributeByIndex s (Some p) (int i)
         = Inr (snd (entries s p ! i), Some (fst (entries s p ! i)))"
proof -
  from GetAttrByIndex_wf[OF assms, of "Some None"] obtain at :: mxml_attr where
    "mxmlElementGetAttrByIndex s (Some p) (int i) (Some None)
       = Inr (attr_value at, Some (attr_name at))"
    "read_opt s (attr_name at) = Inr (Some (fst (entries s p ! i)))"
    "read_opt s (attr_value at) = Inr (snd (entries s p ! i))"
    by auto
  then show ?thesis by (simp add: getAttributeByIndex_def)
qed

lemma getAttribute_wf:
  assumes "wf_attrs s p"
  shows "getAttribute s (Some p) (Some nm)
         = Inr (case first_index nm (map fst (entries s p)) of
                  None \<Rightarrow> None
                | Some j \<Rightarrow> snd (entries s p ! j))"
proof -
  from wf_view[OF assms(1)] obtain n sl a blk where v: "store_view s p n sl a blk"
    by blast
  note e = view_entries[OF v]
  note sc = attr_scan_view[OF v, of nm]
  show ?thesis
  proof (cases "first_index nm (map fst (entries s p))")
    case None
    then show ?thesis
      using sc view_node[OF v]
      by (simp add: getAttribute_def mxmlElementGetAttr_def load_node_def read_opt_def)
  next
    case (Some j)
    then have j: "j < length sl"
      using first_index_Some[OF Some] e by simp
    note b = view_block[OF v j]
    have rv: "read_opt s (attr_value (sl ! j)) = Inr (snd (entries s p ! j))"
      using read_opt_sound(2)[OF view_sound[OF v] b(7)] e j by simp
    show ?thesis
      using sc view_node[OF v] Some b(1,6) rv
      by (simp add: getAttribute_def mxmlElementGetAttr_def load_node_def)
  qed
qed

subsection \<open>Replacing the value of a slot\<close>

lemma sound_slots_split:
  "sound_slots S (pre @ at # post) \<longleftrightarrow>
     sound_slots S pre \<and> sound_slots S post
     \<and> attr_name at \<noteq> None \<and> (\<forall>q\<in>set (owned1 at). cell S q \<noteq> None) \<and> distinct (owned1 at)
     \<and> set (owned pre) \<inter> set (owned1 at) = {}
     \<and> set (owned pre) \<inter> set (owned post) = {}
     \<and> set (owned1 at) \<inter> set (owned post) = {}"
  by (auto simp: sound_slots_def list_all_iff)

lemma sound_slots_set_value:
  assumes snd: "sound_slots S (pre @ at # post)" and val: "ok_val S (pre @ at # post) val"
    and S1: "S1 = (case attr_value at of None \<Rightarrow> S | Some ov \<Rightarrow> S[ov := None])"
  shows "sound_slots S1 (pre @ at\<lparr>attr_value := val\<rparr> # post)"
    and "map (entry_of S1) (pre @ at\<lparr>attr_value := val\<rparr> # post)
         = map (entry_of S) pre @ (fst (entry_of S at), str_at S val) # map (entry_of S) post"
proof -
  obtain na where na: "attr_name at = Some na"
    using snd by (auto simp: sound_slots_split)
  have keep: "cell S1 q = cell S q" if "attr_value at \<noteq> Some q" for q
    using that S1 by (auto simp: cell_update split: option.splits)
  have na_ne: "attr_value at \<noteq> Some na"
    using snd na by (auto simp: sound_slots_split owned1_def)
  have pre_ne: "attr_value at \<noteq> Some q" if "q \<in> set (owned pre)" for q
    using snd that by (auto simp: sound_slots_split owned1_def split: option.splits)
  have post_ne: "attr_value at \<noteq> Some q" if "q \<in> set (owned post)" for q
    using snd that by (auto simp: sound_slots_split owned1_def split: option.splits)
  have val_ne: "attr_value at \<noteq> Some va" if "val = Some va" for va
    using val that by (auto simp: ok_val_def owned1_def split: option.splits)
  have sp: "sound_slots S1 pre"
    using snd pre_ne keep by (intro sound_slots_frame[of S pre S1]) (auto simp: sound_slots_split)
  have spo: "sound_slots S1 post"
    using snd post_ne keep by (intro sound_slots_frame[of S post S1]) (auto simp: sound_slots_split)
  have o1: "owned1 (at\<lparr>attr_value := val\<rparr>) = na # (case val of None \<Rightarrow> [] | Some va \<Rightarrow> [va])"
    using na by (simp add: owned1_def)
  have o0: "na \<in> set (owned1 at)" using na by (simp add: owned1_def)
  show "sound_slots S1 (pre @ at\<lparr>attr_value := val\<rparr> # post)"
    unfolding sound_slots_split
  proof (intro conjI)
    show "sound_slots S1 pre" by (rule sp)
    show "sound_slots S1 post" by (rule spo)
    show "attr_name (at\<lparr>attr_value := val\<rparr>) \<noteq> None" using na by simp
    show "\<forall>q\<in>set (owned1 (at\<lparr>attr_value := val\<rparr>)). cell S1 q \<noteq> None"
      using snd val o0 keep[OF na_ne] val_ne keep
      by (auto simp: o1 sound_slots_split ok_val_def split: option.splits)
    show "distinct (owned1 (at\<lparr>attr_value := val\<rparr>))"
      using val o0 by (auto simp: o1 ok_val_def split: option.splits)
    show "set (owned pre) \<inter> set (owned1 (at\<lparr>attr_value := val\<rparr>)) = {}"
      using snd val o0 by (auto simp: o1 sound_slots_split ok_val_def split: option.splits)
    show "set (owned pre) \<inter> set (owned post) = {}"
      using snd by (simp add: sound_slots_split)
    show "set (owned1 (at\<lparr>attr_value := val\<rparr>)) \<inter> set (owned post) = {}"
      using snd val o0 by (auto simp: o1 sound_slots_split ok_val_def split: option.splits)
  qed
  have e1: "map (entry_of S1) pre = map (entry_of S) pre"
    using pre_ne keep by (intro entries_frame) auto
  have e2: "map (entry_of S1) post = map (entry_of S) post"
    using post_ne keep by (intro entries_frame) auto
  have e3: "entry_of S1 (at\<lparr>attr_value := val\<rparr>) = (fst (entry_of S at), str_at S val)"
    using na keep[OF na_ne] val_ne keep
    by (auto simp: entry_of_def str_at_def split: option.splits)
  show "map (entry_of S1) (pre @ at\<lparr>attr_value := val\<rparr> # post)
         = map (entry_of S) pre @ (fst (entry_of S at), str_at S val) # map (entry_of S) post"
    by (simp add: e1 e2 e3)
qed

subsection \<open>mxml_set_attr on an existing name\<close>

lemma free_str_live:
  "cell (strs s) q = Some x \<Longrightarrow> free_str s (Some q) = Inr (s\<lparr>strs := (strs s)[q := None]\<rparr>)"
  by (simp add: free_str_def)

lemma set_attr_found:
  assumes v: "store_view s p n sl a blk"
    and fi: "first_index nm (map fst (entries s p)) = Some j"
    and val: "ok_val (strs s) sl val"
  shows "\<exists>s' sl' blk'. mxml_set_attr s p nm val = Inr (s', 0)
           \<and> store_view s' p n sl' a blk'
           \<and> nodes s' = nodes s \<and> errs s' = errs s \<and> oom s' = oom s
           \<and> length (strs s') = length (strs s)
           \<and> entries s' p = (entries s p)[j := (nm, str_at (strs s) val)]"
proof -
  note e = view_entries[OF v]
  from first_index_Some[OF fi] e have j: "j < length sl" and nmj: "fst (entry_of (strs s) (sl ! j)) = nm"
    by auto
  note b = view_block[OF v j]
  let ?at = "sl ! j"
  let ?at' = "?at\<lparr>attr_value := val\<rparr>"
  let ?S1 = "case attr_value ?at of None \<Rightarrow> strs s | Some ov \<Rightarrow> (strs s)[ov := None]"
  let ?blk' = "blk[j := ?at']"
  let ?s' = "s\<lparr>strs := ?S1, arrs := (arrs s)[a := Some ?blk']\<rparr>"
  have split: "sl = take j sl @ ?at # drop (Suc j) sl"
    using j by (simp add: id_take_nth_drop[symmetric])
  have upd: "sl[j := ?at'] = take j sl @ ?at' # drop (Suc j) sl"
    using j by (simp add: upd_conv_take_nth_drop)
  have snd0: "sound_slots (strs s) (take j sl @ ?at # drop (Suc j) sl)"
    using view_sound[OF v] split by simp
  have val0: "ok_val (strs s) (take j sl @ ?at # drop (Suc j) sl) val"
    using val split by simp
  note sv = sound_slots_set_value[OF snd0 val0 refl]
  have fr: "(if attr_value ?at \<noteq> None then free_str s (attr_value ?at) else Inr s)
            = Inr (s\<lparr>strs := ?S1\<rparr>)"
  proof (cases "attr_value ?at")
    case None
    then show ?thesis by simp
  next
    case (Some ov)
    then obtain x where "cell (strs s) ov = Some x"
      using sound_slots_value[OF view_sound[OF v] b(7)] by blast
    with Some show ?thesis by (simp add: free_str_live)
  qed
  have st: "store_attr (s\<lparr>strs := ?S1\<rparr>) (Some a) j ?at' = Inr ?s'"
    using b(2,3) j by (simp add: store_attr_def)
  have run: "mxml_set_attr s p nm val = Inr (?s', 0)"
    using view_node[OF v] attr_scan_view[OF v, of nm] fi b(1,6) fr st
    by (simp add: mxml_set_attr_def load_node_def)
  have alt: "a < length (arrs s)" using b(2) by (rule cell_Some_less)
  have view': "store_view ?s' p n (sl[j := ?at']) a ?blk'"
    unfolding store_view_def
  proof (intro conjI impI)
    show "nodes ?s' p = Some n" using view_node[OF v] by simp
    show "node_type n = MXML_ELEMENT" using view_node[OF v] by simp
    show "num_attrs (v_element (node_value n)) = int (length (sl[j := ?at']))"
      using view_count[OF v] by simp
    show "sound_slots (strs ?s') (sl[j := ?at'])"
      using sv(1) upd by simp
    show "attrs (v_element (node_value n)) = Some a" by (rule b(1))
    show "cell (arrs ?s') a = Some ?blk'" using alt by (simp add: cell_update)
    show "length (sl[j := ?at']) \<le> length ?blk'" using b(3) by simp
    show "take (length (sl[j := ?at'])) ?blk' = sl[j := ?at']"
      using b(4) by (simp add: take_update_swap)
  qed
  have ent: "entries ?s' p = (entries s p)[j := (nm, str_at (strs s) val)]"
  proof -
    have "entries ?s' p = map (entry_of ?S1) (sl[j := ?at'])"
      using view_entries[OF view'] by simp
    also have "\<dots> = map (entry_of (strs s)) (take j sl)
         @ (nm, str_at (strs s) val) # map (entry_of (strs s)) (drop (Suc j) sl)"
      using sv(2) upd nmj by simp
    also have "\<dots> = (map (entry_of (strs s)) sl)[j := (nm, str_at (strs s) val)]"
      using j by (simp add: upd_conv_take_nth_drop take_map drop_map)
    finally show ?thesis using e by simp
  qed
  have len: "length (strs ?s') = length (strs s)"
    by (simp split: option.splits)
  show ?thesis
    using run view' ent len by (intro exI[of _ ?s'] exI[of _ "sl[j := ?at']"] exI[of _ ?blk']) simp
qed

subsection \<open>mxml_set_attr on a new name\<close>

lemma grow_array_fail:
  assumes v: "store_view s p n sl a blk" and f: "next_fails (oom s)"
  shows "(if num_attrs (v_element (node_value n)) = 0 then Inr (malloc_attrs s 1)
          else realloc_attrs s (attrs (v_element (node_value n)))
                 (num_attrs (v_element (node_value n)) + 1))
         = Inr (s\<lparr>oom := tl (oom s)\<rparr>, None)"
proof (cases "sl = []")
  case True
  then show ?thesis using view_count[OF v] f by (simp add: malloc_attrs_def)
next
  case False
  then have "0 < length sl" by simp
  note b = view_block[OF v this]
  show ?thesis using view_count[OF v] False f b(1,2) by (simp add: realloc_attrs_def)
qed

lemma grow_array_ok:
  assumes v: "store_view s p n sl a blk" and f: "\<not> next_fails (oom s)"
  shows "\<exists>A1 blk2.
          (if num_attrs (v_element (node_value n)) = 0 then Inr (malloc_attrs s 1)
           else realloc_attrs s (attrs (v_element (node_value n)))
                  (num_attrs (v_element (node_value n)) + 1))
          = Inr (s\<lparr>arrs := A1, oom := tl (oom s)\<rparr>, Some (length (arrs s)))
          \<and> length A1 = Suc (length (arrs s))
          \<and> cell A1 (length (arrs s)) = Some blk2
          \<and> length blk2 = Suc (length sl) \<and> take (length sl) blk2 = sl"
proof (cases "sl = []")
  case True
  let ?A1 = "arrs s @ [Some (replicate 1 uninit_attr)]"
  have "Inr (malloc_attrs s 1) = Inr (s\<lparr>arrs := ?A1, oom := tl (oom s)\<rparr>, Some (length (arrs s)))"
    using f by (simp add: malloc_attrs_def)
  moreover have "cell ?A1 (length (arrs s)) = Some (replicate 1 uninit_attr)"
    by (simp add: cell_snoc)
  ultimately show ?thesis
    using True view_count[OF v]
    by (intro exI[of _ ?A1] exI[of _ "replicate 1 uninit_attr"]) simp
next
  case False
  then have "0 < length sl" by simp
  note b = view_block[OF v this]
  let ?m = "Suc (length sl)"
  let ?blk2 = "take ?m (blk @ replicate ?m uninit_attr)"
  let ?A1 = "(arrs s)[a := None] @ [Some ?blk2]"
  have nat: "nat (int (length sl) + 1) = ?m" by simp
  have "realloc_attrs s (Some a) (int (length sl) + 1)
        = Inr (s\<lparr>arrs := ?A1, oom := tl (oom s)\<rparr>, Some (length (arrs s)))"
    using f b(2) unfolding realloc_attrs_def nat by simp
  moreover have "cell ?A1 (length (arrs s)) = Some ?blk2"
    by (simp add: cell_update_snoc)
  moreover have "length ?blk2 = ?m" by simp
  moreover have "take (length sl) ?blk2 = sl"
    using b(3,4) by (simp add: min_def)
  ultimately show ?thesis
    using False view_count[OF v] b(1)
    by (intro exI[of _ ?A1] exI[of _ ?blk2]) simp
qed

lemma owned_below:
  assumes "sound_slots S sl" "q \<in> set (owned sl)"
  shows "q < length S"
proof -
  from assms obtain x where "cell S q = Some x"
    by (auto simp: sound_slots_def list_all_iff)
  then show ?thesis by (rule cell_Some_less)
qed

lemma ok_val_Some:
  assumes "ok_val S sl (Some va)"
  shows "va < length S" "va \<notin> set (owned sl)" "cell S va \<noteq> None"
proof -
  from assms show "va \<notin> set (owned sl)" "cell S va \<noteq> None"
    by (simp_all add: ok_val_def)
  then obtain x where "cell S va = Some x" by blast
  then show "va < length S" by (rule cell_Some_less)
qed

lemma sound_slots_snoc:
  assumes snd: "sound_slots S sl" and val: "ok_val S sl val"
  shows "sound_slots (S @ [Some x]) (sl @ [\<lparr>attr_name = Some (length S), attr_value = val\<rparr>])"
    and "map (entry_of (S @ [Some x])) (sl @ [\<lparr>attr_name = Some (length S), attr_value = val\<rparr>])
         = map (entry_of S) sl @ [(x, str_at S val)]"
proof -
  let ?new = "\<lparr>attr_name = Some (length S), attr_value = val\<rparr>"
  have keep: "cell (S @ [Some x]) q = cell S q" if "q < length S" for q
    using that by (simp add: cell_snoc)
  have below: "q < length S" if "q \<in> set (owned sl)" for q
    using owned_below[OF snd that] .
  have nfresh: "length S \<notin> set (owned sl)"
    using below by blast
  have s1: "sound_slots (S @ [Some x]) sl"
  proof (rule sound_slots_frame[OF snd])
    fix q assume "q \<in> set (owned sl)"
    then show "cell (S @ [Some x]) q = cell S q" by (simp add: keep below)
  qed
  have e1: "map (entry_of (S @ [Some x])) sl = map (entry_of S) sl"
  proof (rule entries_frame)
    fix q assume "q \<in> set (owned sl)"
    then show "cell (S @ [Some x]) q = cell S q" by (simp add: keep below)
  qed
  show "sound_slots (S @ [Some x]) (sl @ [?new])"
  proof (cases val)
    case None
    have "sound_slots (S @ [Some x]) (sl @ ?new # [])"
      unfolding sound_slots_split using s1 nfresh None
      by (simp add: owned1_def cell_snoc)
    then show ?thesis by simp
  next
    case (Some va)
    note ov = ok_val_Some[OF val[unfolded Some]]
    have "cell (S @ [Some x]) va \<noteq> None" using ov(1,3) by (simp add: keep)
    moreover have "va \<noteq> length S" using ov(1) by simp
    ultimately have "sound_slots (S @ [Some x]) (sl @ ?new # [])"
      unfolding sound_slots_split using s1 nfresh Some ov(2)
      by (simp add: owned1_def cell_snoc)
    then show ?thesis by simp
  qed
  have e2: "entry_of (S @ [Some x]) ?new = (x, str_at S val)"
  proof (cases val)
    case None
    then show ?thesis by (simp add: entry_of_def str_at_def cell_snoc)
  next
    case (Some va)
    note ov = ok_val_Some[OF val[unfolded Some]]
    show ?thesis using Some ov(1) by (simp add: entry_of_def str_at_def cell_snoc)
  qed
  show "map (entry_of (S @ [Some x])) (sl @ [?new]) = map (entry_of S) sl @ [(x, str_at S val)]"
    by (simp add: e1 e2)
qed

lemma set_attr_new_alloc_fail:
  assumes v: "store_view s p n sl a blk"
    and fi: "first_index nm (map fst (entries s p)) = None"
    and f: "next_fails (oom s)"
  shows "mxml_set_attr s p nm val
         = Inr (s\<lparr>oom := tl (oom s),
                   errs := errs s @ [alloc_message nm (elem_name (v_element (node_value n)))]\<rparr>,
                - 1)"
  using view_node[OF v] attr_scan_view[OF v, of nm] fi grow_array_fail[OF v f]
  by (simp add: mxml_set_attr_def load_node_def mxml_error_def)

lemma set_attr_new_name_fail:
  assumes v: "store_view s p n sl a blk"
    and fi: "first_index nm (map fst (entries s p)) = None"
    and f1: "\<not> next_fails (oom s)" and f2: "next_fails (tl (oom s))"
  shows "\<exists>s' n' a' blk'. mxml_set_attr s p nm val = Inr (s', - 1)
           \<and> store_view s' p n' sl a' blk'
           \<and> strs s' = strs s
           \<and> errs s' = errs s @ [alloc_message nm (elem_name (v_element (node_value n)))]
           \<and> oom s' = tl (tl (oom s))
           \<and> (\<forall>r. r \<noteq> p \<longrightarrow> nodes s' r = nodes s r)
           \<and> elem_name (v_element (node_value n')) = elem_name (v_element (node_value n))"
proof -
  let ?e = "v_element (node_value n)"
  let ?a' = "length (arrs s)"
  let ?m = "length sl"
  from grow_array_ok[OF v f1] obtain A1 blk2 where g:
    "(if num_attrs ?e = 0 then Inr (malloc_attrs s 1)
      else realloc_attrs s (attrs ?e) (num_attrs ?e + 1))
     = Inr (s\<lparr>arrs := A1, oom := tl (oom s)\<rparr>, Some ?a')"
    "length A1 = Suc ?a'" "cell A1 ?a' = Some blk2" "length blk2 = Suc ?m" "take ?m blk2 = sl"
    by blast
  let ?n1 = "set_element n (?e\<lparr>attrs := Some ?a'\<rparr>)"
  let ?s2 = "store_node (s\<lparr>arrs := A1, oom := tl (oom s)\<rparr>) p ?n1"
  let ?s3 = "?s2\<lparr>oom := tl (tl (oom s))\<rparr>"
  let ?blk3 = "blk2[?m := (blk2 ! ?m)\<lparr>attr_name := None\<rparr>]"
  let ?s4 = "?s3\<lparr>arrs := A1[?a' := Some ?blk3]\<rparr>"
  let ?msg = "alloc_message nm (elem_name ?e)"
  let ?s' = "mxml_error ?s4 ?msg"
  have sd: "strdup ?s2 nm = (?s3, None)"
    using f2 by (simp add: strdup_def store_node_def)
  have ld: "load_attr ?s3 (Some ?a') ?m = Inr (blk2 ! ?m)"
    using g(3,4) by (simp add: load_attr_def store_node_def)
  have st: "store_attr ?s3 (Some ?a') ?m ((blk2 ! ?m)\<lparr>attr_name := None\<rparr>) = Inr ?s4"
    using g(3,4) by (simp add: store_attr_def store_node_def)
  have nn: "\<not> num_attrs ?e < 0" using view_count[OF v] by simp
  have cnt: "nat (num_attrs ?e) = ?m" using view_count[OF v] by simp
  have run: "mxml_set_attr s p nm val = Inr (?s', - 1)"
    using view_node[OF v] attr_scan_view[OF v, of nm] fi
    unfolding mxml_set_attr_def
    by (simp add: load_node_def g(1) nn cnt sd ld st Let_def)
  have view': "store_view ?s' p ?n1 sl ?a' ?blk3"
    unfolding store_view_def
  proof (intro conjI impI)
    show "nodes ?s' p = Some ?n1" by (simp add: mxml_error_def store_node_def)
    show "node_type ?n1 = MXML_ELEMENT" using view_node[OF v] by (simp add: set_element_def)
    show "num_attrs (v_element (node_value ?n1)) = int (length sl)"
      using view_count[OF v] by (simp add: set_element_def)
    show "sound_slots (strs ?s') sl"
      using view_sound[OF v] by (simp add: mxml_error_def store_node_def)
    show "attrs (v_element (node_value ?n1)) = Some ?a'" by (simp add: set_element_def)
    show "cell (arrs ?s') ?a' = Some ?blk3"
      using g(2) by (simp add: mxml_error_def store_node_def cell_update)
    show "length sl \<le> length ?blk3" using g(4) by simp
    show "take (length sl) ?blk3 = sl" using g(5) by simp
  qed
  have rest: "strs ?s' = strs s" "errs ?s' = errs s @ [?msg]" "oom ?s' = tl (tl (oom s))"
    "\<forall>r. r \<noteq> p \<longrightarrow> nodes ?s' r = nodes s r"
    "elem_name (v_element (node_value ?n1)) = elem_name ?e"
    by (simp_all add: mxml_error_def store_node_def set_element_def)
  show ?thesis
    using run view' rest
    by (intro exI[of _ ?s'] exI[of _ ?n1] exI[of _ ?a'] exI[of _ ?blk3]) simp
qed

lemma set_attr_new_ok:
  assumes v: "store_view s p n sl a blk"
    and fi: "first_index nm (map fst (entries s p)) = None"
    and val: "ok_val (strs s) sl val"
    and f1: "\<not> next_fails (oom s)" and f2: "\<not> next_fails (tl (oom s))"
  shows "\<exists>s' n' sl' a' blk'. mxml_set_attr s p nm val = Inr (s', 0)
           \<and> store_view s' p n' sl' a' blk'
           \<and> strs s' = strs s @ [Some nm]
           \<and> errs s' = errs s
           \<and> oom s' = tl (tl (oom s))
           \<and> (\<forall>r. r \<noteq> p \<longrightarrow> nodes s' r = nodes s r)
           \<and> elem_name (v_element (node_value n')) = elem_name (v_element (node_value n))
           \<and> entries s' p = entries s p @ [(nm, str_at (strs s) val)]"
proof -
  let ?e = "v_element (node_value n)"
  let ?a' = "length (arrs s)"
  let ?m = "length sl"
  let ?na = "length (strs s)"
  from grow_array_ok[OF v f1] obtain A1 blk2 where g:
    "(if num_attrs ?e = 0 then Inr (malloc_attrs s 1)
      else realloc_attrs s (attrs ?e) (num_attrs ?e + 1))
     = Inr (s\<lparr>arrs := A1, oom := tl (oom s)\<rparr>, Some ?a')"
    "length A1 = Suc ?a'" "cell A1 ?a' = Some blk2" "length blk2 = Suc ?m" "take ?m blk2 = sl"
    by blast
  let ?n1 = "set_element n (?e\<lparr>attrs := Some ?a'\<rparr>)"
  let ?n2 = "set_element n (?e\<lparr>attrs := Some ?a', num_attrs := num_attrs ?e + 1\<rparr>)"
  let ?s2 = "store_node (s\<lparr>arrs := A1, oom := tl (oom s)\<rparr>) p ?n1"
  let ?s3 = "?s2\<lparr>strs := strs s @ [Some nm], oom := tl (tl (oom s))\<rparr>"
  let ?at1 = "(blk2 ! ?m)\<lparr>attr_name := Some ?na\<rparr>"
  let ?new = "\<lparr>attr_name = Some ?na, attr_value = val\<rparr>"
  let ?blk3 = "blk2[?m := ?at1]"
  let ?blk4 = "blk2[?m := ?new]"
  let ?s4 = "?s3\<lparr>arrs := A1[?a' := Some ?blk3]\<rparr>"
  let ?s5 = "?s3\<lparr>arrs := A1[?a' := Some ?blk4]\<rparr>"
  let ?s' = "store_node ?s5 p ?n2"
  have sd: "strdup ?s2 nm = (?s3, Some ?na)"
    using f2 by (simp add: strdup_def store_node_def)
  have ld: "load_attr ?s3 (Some ?a') ?m = Inr (blk2 ! ?m)"
    using g(3,4) by (simp add: load_attr_def store_node_def)
  have st1: "store_attr ?s3 (Some ?a') ?m ?at1 = Inr ?s4"
    using g(3,4) by (simp add: store_attr_def store_node_def)
  have new: "(blk2 ! ?m)\<lparr>attr_name := Some ?na, attr_value := val\<rparr> = ?new"
    by simp
  have st2: "store_attr ?s4 (Some ?a') ?m ?new = Inr ?s5"
    using g(2,4) by (simp add: store_attr_def store_node_def cell_update)
  have nn: "\<not> num_attrs ?e < 0" using view_count[OF v] by simp
  have cnt: "nat (num_attrs ?e) = ?m" using view_count[OF v] by simp
  have run: "mxml_set_attr s p nm val = Inr (?s', 0)"
    using view_node[OF v] attr_scan_view[OF v, of nm] fi
    unfolding mxml_set_attr_def
    by (simp add: load_node_def g(1) nn cnt sd ld st1 new st2 Let_def)
  have b4: "?blk4 = sl @ [?new]"
  proof -
    have "blk2 = take ?m blk2 @ drop ?m blk2" by simp
    moreover have "length (drop ?m blk2) = 1" using g(4) by simp
    then obtain z where "drop ?m blk2 = [z]"
      by (cases "drop ?m blk2") auto
    ultimately have "blk2 = sl @ [z]" using g(5) by simp
    then show ?thesis by simp
  qed
  note ss = sound_slots_snoc[OF view_sound[OF v] val, of nm]
  have view': "store_view ?s' p ?n2 (sl @ [?new]) ?a' ?blk4"
    unfolding store_view_def
  proof (intro conjI impI)
    show "nodes ?s' p = Some ?n2" by (simp add: store_node_def)
    show "node_type ?n2 = MXML_ELEMENT" using view_node[OF v] by (simp add: set_element_def)
    show "num_attrs (v_element (node_value ?n2)) = int (length (sl @ [?new]))"
      using view_count[OF v] by (simp add: set_element_def)
    show "sound_slots (strs ?s') (sl @ [?new])"
      using ss(1) by (simp add: store_node_def)
    show "attrs (v_element (node_value ?n2)) = Some ?a'" by (simp add: set_element_def)
    show "cell (arrs ?s') ?a' = Some ?blk4"
      using g(2) by (simp add: store_node_def cell_update)
    show "length (sl @ [?new]) \<le> length ?blk4" using g(4) by simp
    show "take (length (sl @ [?new])) ?blk4 = sl @ [?new]" unfolding b4 by simp
  qed
  have ent: "entries ?s' p = entries s p @ [(nm, str_at (strs s) val)]"
    using view_entries[OF view'] view_entries[OF v] ss(2) by (simp add: store_node_def)
  have rest: "strs ?s' = strs s @ [Some nm]" "errs ?s' = errs s" "oom ?s' = tl (tl (oom s))"
    "\<forall>r. r \<noteq> p \<longrightarrow> nodes ?s' r = nodes s r"
    "elem_name (v_element (node_value ?n2)) = elem_name ?e"
    by (simp_all add: store_node_def set_element_def)
  show ?thesis
    using run view' rest ent
    by (intro exI[of _ ?s'] exI[of _ ?n2] exI[of _ "sl @ [?new]"] exI[of _ ?a'] exI[of _ ?blk4])
       simp
qed

subsection \<open>The two setters\<close>

lemma ok_val_None [simp]: "ok_val S sl None"
  by (simp add: ok_val_def)

lemma store_view_strs_frame:
  assumes v: "store_view s p n sl a blk"
    and s': "nodes s' = nodes s" "arrs s' = arrs s"
    and fr: "\<And>q. q \<in> set (owned sl) \<Longrightarrow> cell (strs s') q = cell (strs s) q"
  shows "store_view s' p n sl a blk" and "entries s' p = entries s p"
proof -
  have snd: "sound_slots (strs s') sl"
    by (rule sound_slots_frame[OF view_sound[OF v]]) (rule fr)
  show v': "store_view s' p n sl a blk"
    using v snd s' by (simp add: store_view_def)
  have "map (entry_of (strs s')) sl = map (entry_of (strs s)) sl"
    by (rule entries_frame) (rule fr)
  then show "entries s' p = entries s p"
    using view_entries[OF v] view_entries[OF v'] by simp
qed

lemma release_value:
  assumes v: "store_view s p n sl a blk" and val: "ok_val (strs s) sl valuec"
  shows "\<exists>s'. free_str s valuec = Inr s' \<and> store_view s' p n sl a blk
           \<and> entries s' p = entries s p \<and> errs s' = errs s \<and> oom s' = oom s
           \<and> nodes s' = nodes s
           \<and> strs s' = (case valuec of None \<Rightarrow> strs s | Some q \<Rightarrow> (strs s)[q := None])"
proof (cases valuec)
  case None
  then show ?thesis
    using v by (simp add: free_str_def)
next
  case (Some q)
  note ov = ok_val_Some[OF val[unfolded Some]]
  from ov(3) obtain x where x: "cell (strs s) q = Some x" by blast
  let ?s' = "s\<lparr>strs := (strs s)[q := None]\<rparr>"
  have fr: "cell (strs ?s') r = cell (strs s) r" if "r \<in> set (owned sl)" for r
    using that ov(2) by (auto simp: cell_update)
  note sv = store_view_strs_frame[OF v, of ?s', OF _ _ fr]
  have "free_str s valuec = Inr ?s'"
    using Some x by (simp add: free_str_live)
  then show ?thesis
    using sv Some by (intro exI[of _ ?s']) simp
qed

lemma dup_value:
  assumes v: "store_view s p n sl a blk"
  shows "\<exists>s1 valuec. (case val of None \<Rightarrow> (s, None) | Some x \<Rightarrow> strdup s x) = (s1, valuec)
           \<and> store_view s1 p n sl a blk \<and> entries s1 p = entries s p
           \<and> ok_val (strs s1) sl valuec
           \<and> str_at (strs s1) valuec = (if next_fails (oom s) then None else val)
           \<and> oom s1 = (if val = None then oom s else tl (oom s))
           \<and> errs s1 = errs s \<and> nodes s1 = nodes s
           \<and> strs s1 = strs s @ (case valuec of None \<Rightarrow> [] | Some q \<Rightarrow> [val])
           \<and> (valuec = None \<or> valuec = Some (length (strs s)))
           \<and> (valuec = None \<longleftrightarrow> val = None \<or> next_fails (oom s))"
proof (cases val)
  case None
  then show ?thesis using v by (simp add: str_at_def)
next
  case (Some x)
  show ?thesis
  proof (cases "next_fails (oom s)")
    case True
    let ?s1 = "s\<lparr>oom := tl (oom s)\<rparr>"
    have "store_view ?s1 p n sl a blk" "entries ?s1 p = entries s p"
      using store_view_strs_frame[OF v, of ?s1] by simp_all
    then show ?thesis
      using Some True by (intro exI[of _ ?s1] exI[of _ None]) (simp add: strdup_def str_at_def)
  next
    case False
    let ?s1 = "s\<lparr>strs := strs s @ [Some x], oom := tl (oom s)\<rparr>"
    have fr: "cell (strs ?s1) r = cell (strs s) r" if "r \<in> set (owned sl)" for r
      using owned_below[OF view_sound[OF v] that] by (simp add: cell_snoc)
    note sv = store_view_strs_frame[OF v, of ?s1, OF _ _ fr]
    have nf: "length (strs s) \<notin> set (owned sl)"
      using owned_below[OF view_sound[OF v]] by blast
    have ok: "ok_val (strs ?s1) sl (Some (length (strs s)))"
      using nf by (simp add: ok_val_def cell_snoc)
    show ?thesis
      using Some False sv ok
      by (intro exI[of _ ?s1] exI[of _ "Some (length (strs s))"])
         (simp add: strdup_def str_at_def cell_snoc)
  qed
qed

text \<open>The common tail of the setters, by the three ways it can go.\<close>

lemma set_or_release_found:
  assumes v: "store_view s p n sl a blk"
    and fi: "first_index nm (map fst (entries s p)) = Some j"
    and val: "ok_val (strs s) sl valuec"
  shows "\<exists>s'. set_or_release s p nm valuec = Inr s' \<and> wf_attrs s' p
           \<and> nodes s' = nodes s \<and> errs s' = errs s \<and> oom s' = oom s
           \<and> entries s' p = (entries s p)[j := (nm, str_at (strs s) valuec)]"
proof -
  from set_attr_found[OF v fi val] obtain s' sl' blk' where r:
    "mxml_set_attr s p nm valuec = Inr (s', 0)" "store_view s' p n sl' a blk'"
    "nodes s' = nodes s" "errs s' = errs s" "oom s' = oom s"
    "entries s' p = (entries s p)[j := (nm, str_at (strs s) valuec)]"
    by blast
  show ?thesis
    using r view_wf[OF r(2)] by (intro exI[of _ s']) (simp add: set_or_release_def)
qed

lemma set_or_release_new_ok:
  assumes v: "store_view s p n sl a blk"
    and fi: "first_index nm (map fst (entries s p)) = None"
    and val: "ok_val (strs s) sl valuec"
    and f1: "\<not> next_fails (oom s)" and f2: "\<not> next_fails (tl (oom s))"
  shows "\<exists>s'. set_or_release s p nm valuec = Inr s' \<and> wf_attrs s' p
           \<and> errs s' = errs s \<and> oom s' = tl (tl (oom s))
           \<and> (\<forall>r. r \<noteq> p \<longrightarrow> nodes s' r = nodes s r)
           \<and> entries s' p = entries s p @ [(nm, str_at (strs s) valuec)]"
proof -
  from set_attr_new_ok[OF v fi val f1 f2] obtain s' n' sl' a' blk' where r:
    "mxml_set_attr s p nm valuec = Inr (s', 0)" "store_view s' p n' sl' a' blk'"
    "errs s' = errs s" "oom s' = tl (tl (oom s))" "\<forall>r. r \<noteq> p \<longrightarrow> nodes s' r = nodes s r"
    "entries s' p = entries s p @ [(nm, str_at (strs s) valuec)]"
    by blast
  show ?thesis
    using r view_wf[OF r(2)] by (intro exI[of _ s']) (simp add: set_or_release_def)
qed

lemma set_or_release_new_fail:
  assumes v: "store_view s p n sl a blk"
    and fi: "first_index nm (map fst (entries s p)) = None"
    and val: "ok_val (strs s) sl valuec"
    and f: "next_fails (oom s) \<or> next_fails (tl (oom s))"
  shows "\<exists>s'. set_or_release s p nm valuec = Inr s' \<and> wf_attrs s' p
           \<and> errs s' = errs s @ [alloc_message nm (elem_name (v_element (node_value n)))]
           \<and> oom s' = (if next_fails (oom s) then tl (oom s) else tl (tl (oom s)))
           \<and> (\<forall>r. r \<noteq> p \<longrightarrow> nodes s' r = nodes s r)
           \<and> entries s' p = entries s p
           \<and> strs s' = (case valuec of None \<Rightarrow> strs s | Some q \<Rightarrow> (strs s)[q := None])"
proof (cases "next_fails (oom s)")
  case True
  let ?msg = "alloc_message nm (elem_name (v_element (node_value n)))"
  let ?s2 = "s\<lparr>oom := tl (oom s), errs := errs s @ [?msg]\<rparr>"
  have run: "mxml_set_attr s p nm valuec = Inr (?s2, - 1)"
    by (rule set_attr_new_alloc_fail[OF v fi True])
  have v2: "store_view ?s2 p n sl a blk" and e2: "entries ?s2 p = entries s p"
    using store_view_strs_frame[OF v, of ?s2] by simp_all
  have val2: "ok_val (strs ?s2) sl valuec" using val by simp
  from release_value[OF v2 val2] obtain s' where r:
    "free_str ?s2 valuec = Inr s'" "store_view s' p n sl a blk"
    "entries s' p = entries ?s2 p" "errs s' = errs ?s2" "oom s' = oom ?s2" "nodes s' = nodes ?s2"
    "strs s' = (case valuec of None \<Rightarrow> strs ?s2 | Some q \<Rightarrow> (strs ?s2)[q := None])"
    by blast
  show ?thesis
    using run r e2 True view_wf[OF r(2)]
    by (intro exI[of _ s']) (simp add: set_or_release_def split: option.splits)
next
  case False
  with f have f2: "next_fails (tl (oom s))" by simp
  let ?msg = "alloc_message nm (elem_name (v_element (node_value n)))"
  from set_attr_new_name_fail[OF v fi False f2, of valuec] obtain s2 n' a' blk' where r2:
    "mxml_set_attr s p nm valuec = Inr (s2, - 1)" "store_view s2 p n' sl a' blk'"
    "strs s2 = strs s" "errs s2 = errs s @ [?msg]" "oom s2 = tl (tl (oom s))"
    "\<forall>r. r \<noteq> p \<longrightarrow> nodes s2 r = nodes s r"
    by blast
  have val2: "ok_val (strs s2) sl valuec" using val r2(3) by simp
  from release_value[OF r2(2) val2] obtain s' where r:
    "free_str s2 valuec = Inr s'" "store_view s' p n' sl a' blk'"
    "entries s' p = entries s2 p" "errs s' = errs s2" "oom s' = oom s2" "nodes s' = nodes s2"
    "strs s' = (case valuec of None \<Rightarrow> strs s2 | Some q \<Rightarrow> (strs s2)[q := None])"
    by blast
  have e2: "entries s2 p = entries s p"
    using view_entries[OF r2(2)] view_entries[OF v] r2(3) by simp
  show ?thesis
    using r2 r e2 False view_wf[OF r(2)]
    by (intro exI[of _ s']) (simp add: set_or_release_def split: option.splits)
qed

lemma SetAttr_unfold:
  assumes "nodes s p = Some n" "node_type n = MXML_ELEMENT"
  shows "mxmlElementSetAttr s (Some p) (Some nm) val
         = (case (case val of None \<Rightarrow> (s, None) | Some x \<Rightarrow> strdup s x) of
              (s1, valuec) \<Rightarrow> set_or_release s1 p nm valuec)"
  using assms by (simp add: mxmlElementSetAttr_def load_node_def set_or_release_def)

lemma SetAttrf_unfold:
  assumes "nodes s p = Some n" "node_type n = MXML_ELEMENT"
  shows "mxmlElementSetAttrf render s (Some p) (Some nm) (Some fmt) ap
         = (case mxml_vstrdupf render s fmt ap of
              (s1, None) \<Rightarrow>
                Inr (mxml_error s1 (alloc_message nm (elem_name (v_element (node_value n)))))
            | (s1, Some q) \<Rightarrow> set_or_release s1 p nm (Some q))"
  using assms
  by (simp add: mxmlElementSetAttrf_def load_node_def set_or_release_def
      split: prod.splits option.splits)

subsection \<open>mxmlElementDeleteAttr\<close>

lemma sound_slots_remove:
  assumes snd: "sound_slots S (pre @ at # post)"
    and fr: "\<And>q. q \<notin> set (owned1 at) \<Longrightarrow> cell S2 q = cell S q"
  shows "sound_slots S2 (pre @ post)"
    and "map (entry_of S2) (pre @ post) = map (entry_of S) pre @ map (entry_of S) post"
proof -
  from snd have parts: "sound_slots S pre" "sound_slots S post"
    "set (owned pre) \<inter> set (owned1 at) = {}" "set (owned pre) \<inter> set (owned post) = {}"
    "set (owned1 at) \<inter> set (owned post) = {}"
    by (simp_all add: sound_slots_split)
  have kp: "cell S2 q = cell S q" if "q \<in> set (owned pre)" for q
    using that parts(3) by (intro fr) blast
  have kq: "cell S2 q = cell S q" if "q \<in> set (owned post)" for q
    using that parts(5) by (intro fr) blast
  have sp: "sound_slots S2 pre"
    by (rule sound_slots_frame[OF parts(1)]) (rule kp)
  have sq: "sound_slots S2 post"
    by (rule sound_slots_frame[OF parts(2)]) (rule kq)
  show "sound_slots S2 (pre @ post)"
    using sp sq parts(4) by (simp add: sound_slots_def)
  have "map (entry_of S2) pre = map (entry_of S) pre"
    by (rule entries_frame) (rule kp)
  moreover have "map (entry_of S2) post = map (entry_of S) post"
    by (rule entries_frame) (rule kq)
  ultimately show "map (entry_of S2) (pre @ post) = map (entry_of S) pre @ map (entry_of S) post"
    by simp
qed

lemma take_prefix_exact: "take (length xs) (xs @ ys) = xs"
  by simp

lemma free_slot_strings:
  assumes snd: "sound_slots (strs s) sl" and mem: "at \<in> set sl"
  shows "\<exists>s1 s2. free_str s (attr_name at) = Inr s1 \<and> free_str s1 (attr_value at) = Inr s2
            \<and> nodes s2 = nodes s \<and> arrs s2 = arrs s \<and> errs s2 = errs s \<and> oom s2 = oom s
            \<and> (\<forall>q. q \<notin> set (owned1 at) \<longrightarrow> cell (strs s2) q = cell (strs s) q)
            \<and> (\<forall>q. q \<in> set (owned1 at) \<longrightarrow> cell (strs s2) q = None)"
proof -
  obtain na x where na: "attr_name at = Some na" "cell (strs s) na = Some x"
    using sound_slots_name[OF snd mem] by blast
  let ?s1 = "s\<lparr>strs := (strs s)[na := None]\<rparr>"
  have f1: "free_str s (attr_name at) = Inr ?s1"
    using na by (simp add: free_str_live)
  have nalt: "na < length (strs s)" using na(2) by (rule cell_Some_less)
  show ?thesis
  proof (cases "attr_value at")
    case None
    have o: "owned1 at = [na]" using na None by (simp add: owned1_def)
    have f2: "free_str ?s1 (attr_value at) = Inr ?s1"
      using None by (simp add: free_str_def)
    show ?thesis
      using f1 f2 o nalt
      by (intro exI[of _ ?s1]) (simp add: cell_update)
  next
    case (Some ov)
    obtain y where y: "cell (strs s) ov = Some y"
      using sound_slots_value[OF snd mem Some] by blast
    have o: "owned1 at = [na, ov]" using na Some by (simp add: owned1_def)
    have "distinct (owned1 at)"
    proof -
      from mem obtain pre post where "sl = pre @ at # post"
        by (auto simp: in_set_conv_decomp)
      with snd show ?thesis by (simp add: sound_slots_split)
    qed
    with o have ne: "ov \<noteq> na" by simp
    have ovlt: "ov < length (strs s)" using y by (rule cell_Some_less)
    let ?s2 = "s\<lparr>strs := (strs s)[na := None, ov := None]\<rparr>"
    have "cell (strs ?s1) ov = Some y" using y ne by (simp add: cell_update)
    then have f2: "free_str ?s1 (attr_value at) = Inr ?s2"
      using Some by (simp add: free_str_def)
    show ?thesis
      using f1 f2 o nalt ovlt ne
      by (intro exI[of _ ?s1] exI[of _ ?s2]) (simp add: cell_update)
  qed
qed

lemma delete_found:
  assumes v: "store_view s p n sl a blk"
    and fi: "first_index nm (map fst (entries s p)) = Some j"
  shows "\<exists>s' n' blk'. mxmlElementDeleteAttr s (Some p) (Some nm) = Inr s'
           \<and> store_view s' p n' (take j sl @ drop (Suc j) sl) a blk'
           \<and> entries s' p = take j (entries s p) @ drop (Suc j) (entries s p)
           \<and> errs s' = errs s \<and> oom s' = oom s
           \<and> (\<forall>r. r \<noteq> p \<longrightarrow> nodes s' r = nodes s r)
           \<and> (\<forall>q. q \<in> set (owned1 (sl ! j)) \<longrightarrow> cell (strs s') q = None)
           \<and> cell (arrs s) a \<noteq> None
           \<and> (cell (arrs s') a = None \<longleftrightarrow> length sl = 1)
           \<and> attrs (v_element (node_value n)) = Some a
           \<and> attrs (v_element (node_value n')) = Some a"
proof -
  let ?e = "v_element (node_value n)"
  let ?m = "length sl"
  note e = view_entries[OF v]
  from first_index_Some[OF fi] e have j: "j < ?m" by auto
  note b = view_block[OF v j]
  let ?at = "sl ! j"
  have split: "sl = take j sl @ ?at # drop (Suc j) sl"
    using j by (simp add: id_take_nth_drop[symmetric])
  from free_slot_strings[OF view_sound[OF v] b(7)] obtain s1 s2 where s2:
    "free_str s (attr_name ?at) = Inr s1 \<and> free_str s1 (attr_value ?at) = Inr s2"
    "nodes s2 = nodes s" "arrs s2 = arrs s" "errs s2 = errs s" "oom s2 = oom s"
    "\<forall>q. q \<notin> set (owned1 ?at) \<longrightarrow> cell (strs s2) q = cell (strs s) q"
    "\<forall>q. q \<in> set (owned1 ?at) \<longrightarrow> cell (strs s2) q = None"
    by blast
  from s2(1) have fs: "free_str s (attr_name ?at) = Inr s1" "free_str s1 (attr_value ?at) = Inr s2"
    by simp_all
  let ?cnt = "?m - Suc j"
  let ?blk' = "if Suc j < ?m
               then take j blk @ take ?cnt (drop (Suc j) blk) @ drop (j + ?cnt) blk else blk"
  let ?s3 = "s2\<lparr>arrs := (arrs s)[a := Some ?blk']\<rparr>"
  have alt: "a < length (arrs s)" using b(2) by (rule cell_Some_less)
  have same: "(arrs s)[a := Some blk] = arrs s"
    using b(2) alt by (simp add: cell_def list_update_same_conv)
  have mv: "(if int ?m - int j - 1 > 0
             then memmove_attrs s2 (attrs ?e) j (j + 1) (nat (int ?m - int j - 1))
             else Inr s2) = Inr ?s3"
  proof (cases "Suc j < ?m")
    case True
    then have n1: "nat (int ?m - int j - 1) = ?cnt" by simp
    have "memmove_attrs s2 (Some a) j (j + 1) ?cnt = Inr ?s3"
      using True b(2,3) s2(3) j by (simp add: memmove_attrs_def)
    with True n1 b(1) show ?thesis by simp
  next
    case False
    have "s2\<lparr>arrs := (arrs s)[a := Some blk]\<rparr> = s2"
      using same s2(3) by simp
    with False show ?thesis by simp
  qed
  let ?n' = "set_element n (?e\<lparr>num_attrs := num_attrs ?e - 1\<rparr>)"
  let ?s4 = "store_node ?s3 p ?n'"
  let ?s' = "if ?m = 1 then ?s4\<lparr>arrs := (arrs s)[a := None]\<rparr> else ?s4"
  have c4: "cell (arrs ?s4) a = Some ?blk'"
    using alt by (simp add: store_node_def cell_update)
  have fin: "(if num_attrs ?e - 1 = 0 then free_attrs ?s4 (attrs ?e) else Inr ?s4) = Inr ?s'"
  proof (cases "?m = 1")
    case True
    have "free_attrs ?s4 (Some a) = Inr (?s4\<lparr>arrs := (arrs ?s4)[a := None]\<rparr>)"
      using c4 unfolding free_attrs_def by simp
    moreover have "(arrs ?s4)[a := None] = (arrs s)[a := None]"
      by (simp add: store_node_def)
    ultimately show ?thesis
      using True view_count[OF v] b(1) by simp
  next
    case False
    then show ?thesis using view_count[OF v] by simp
  qed
  have sc: "attr_scan s (attrs ?e) nm (num_attrs ?e) 0 = Inr (Some (int ?m - int j, j))"
    using attr_scan_view[OF v, of nm] fi by simp
  have ld: "load_attr s (attrs ?e) j = Inr ?at"
    using b(1,6) by simp
  have ty: "(node_type n \<noteq> MXML_ELEMENT) = False"
    using view_node[OF v] by simp
  have nd: "nodes s p = Some n" using view_node[OF v] by simp
  have run: "mxmlElementDeleteAttr s (Some p) (Some nm) = Inr ?s'"
    unfolding mxmlElementDeleteAttr_def load_node_def
    by (simp only: option.case sum.case prod.case Let_def nd ty if_False sc ld fs mv fin)
  let ?sl' = "take j sl @ drop (Suc j) sl"
  have tj: "take j blk = take j sl"
  proof -
    have "take j sl = take j (take ?m blk)" using b(4) by simp
    also have "\<dots> = take j blk" using j by (simp add: min_def)
    finally show ?thesis by simp
  qed
  have tk: "take (?m - 1) ?blk' = ?sl'"
  proof (cases "Suc j < ?m")
    case True
    have t2: "take ?cnt (drop (Suc j) blk) = drop (Suc j) sl"
    proof -
      have "drop (Suc j) sl = drop (Suc j) (take ?m blk)" using b(4) by simp
      also have "\<dots> = take ?cnt (drop (Suc j) blk)" by (simp add: drop_take)
      finally show ?thesis by simp
    qed
    have len: "length ?sl' = ?m - 1" using j by simp
    have "?blk' = ?sl' @ drop (j + ?cnt) blk"
      using True tj t2 by simp
    then have "take (?m - 1) ?blk' = take (length ?sl') (?sl' @ drop (j + ?cnt) blk)"
      using len by simp
    also have "\<dots> = ?sl'" by (rule take_prefix_exact)
    finally show ?thesis .
  next
    case False
    with j have jm: "j = ?m - 1" by simp
    have "drop (Suc j) sl = []" using jm j by simp
    then show ?thesis using False tj jm by simp
  qed
  have fr: "\<And>q. q \<notin> set (owned1 ?at) \<Longrightarrow> cell (strs s2) q = cell (strs s) q"
    using s2(6) by blast
  have snd0: "sound_slots (strs s) (take j sl @ ?at # drop (Suc j) sl)"
    using view_sound[OF v] split by simp
  note rm = sound_slots_remove[OF snd0 fr]
  have strs': "strs ?s' = strs s2" by (simp add: store_node_def)
  have view': "store_view ?s' p ?n' ?sl' a ?blk'"
    unfolding store_view_def
  proof (intro conjI impI)
    show "nodes ?s' p = Some ?n'" by (simp add: store_node_def)
    show "node_type ?n' = MXML_ELEMENT" using view_node[OF v] by (simp add: set_element_def)
    show "num_attrs (v_element (node_value ?n')) = int (length ?sl')"
      using view_count[OF v] j by (simp add: set_element_def)
    show "sound_slots (strs ?s') ?sl'" using rm(1) strs' by simp
  next
    assume ne: "?sl' \<noteq> []"
    then have m1: "?m \<noteq> 1" using j by (cases sl) auto
    show "attrs (v_element (node_value ?n')) = Some a" using b(1) by (simp add: set_element_def)
    show "cell (arrs ?s') a = Some ?blk'" using m1 c4 by simp
    show "length ?sl' \<le> length ?blk'" using j b(3) by auto
    have "length ?sl' = ?m - 1" using j by simp
    then show "take (length ?sl') ?blk' = ?sl'" using tk by simp
  qed
  have ent: "entries ?s' p = take j (entries s p) @ drop (Suc j) (entries s p)"
    using view_entries[OF view'] rm(2) strs' e by (simp add: take_map drop_map)
  have rest: "errs ?s' = errs s" "oom ?s' = oom s" "\<forall>r. r \<noteq> p \<longrightarrow> nodes ?s' r = nodes s r"
    using s2(2,4,5) by (simp_all add: store_node_def)
  have freed: "\<forall>q. q \<in> set (owned1 ?at) \<longrightarrow> cell (strs ?s') q = None"
    using s2(7) strs' by simp
  have arr: "cell (arrs s) a \<noteq> None" "cell (arrs ?s') a = None \<longleftrightarrow> ?m = 1"
    using b(2) c4 alt by (simp_all add: cell_update)
  have ptrs: "attrs ?e = Some a" "attrs (v_element (node_value ?n')) = Some a"
    using b(1) by (simp_all add: set_element_def)
  show ?thesis
    using run view' ent rest freed arr ptrs
    by (intro exI[of _ ?s'] exI[of _ ?n'] exI[of _ ?blk']) simp
qed

lemma delete_missing:
  assumes v: "store_view s p n sl a blk"
    and fi: "first_index nm (map fst (entries s p)) = None"
  shows "mxmlElementDeleteAttr s (Some p) (Some nm) = Inr s"
  using view_node[OF v] attr_scan_view[OF v, of nm] fi
  by (simp add: mxmlElementDeleteAttr_def load_node_def)

subsection \<open>The setters and the delete on a well-formed store\<close>

lemma cell_released_snoc: "cell ((S @ [x])[length S := None]) q = cell S q"
  by (simp add: cell_def nth_append)

lemma cell_snoc_None: "cell (S @ [None]) q = cell S q"
  by (simp add: cell_def nth_append)

lemma SetAttr_cases:
  assumes wf: "wf_attrs s p" and nd: "nodes s p = Some n"
  shows "\<exists>s'. mxmlElementSetAttr s (Some p) (Some nm) val = Inr s' \<and> wf_attrs s' p
          \<and> (\<forall>r. r \<noteq> p \<longrightarrow> nodes s' r = nodes s r)
          \<and> (case first_index nm (map fst (entries s p)) of
                Some j \<Rightarrow>
                  entries s' p = (entries s p)[j := (nm, if next_fails (oom s) then None else val)]
                  \<and> nodes s' = nodes s \<and> errs s' = errs s
                  \<and> oom s' = (if val = None then oom s else tl (oom s))
              | None \<Rightarrow>
                  if next_fails (if val = None then oom s else tl (oom s))
                     \<or> next_fails (tl (if val = None then oom s else tl (oom s)))
                  then entries s' p = entries s p
                       \<and> errs s' = errs s @ [alloc_message nm (elem_name (v_element (node_value n)))]
                       \<and> strs s' = strs s @ (if val = None \<or> next_fails (oom s) then [] else [None])
                  else entries s' p
                         = entries s p @ [(nm, if next_fails (oom s) then None else val)]
                       \<and> errs s' = errs s
                       \<and> oom s' = tl (tl (if val = None then oom s else tl (oom s))))"
proof -
  let ?os = "if val = None then oom s else tl (oom s)"
  let ?v' = "if next_fails (oom s) then None else val"
  from wf_view[OF wf] obtain n0 sl a blk where v0: "store_view s p n0 sl a blk"
    by blast
  with nd have v: "store_view s p n sl a blk"
    using view_node[OF v0] by simp
  have ty: "node_type n = MXML_ELEMENT" using view_node[OF v] by simp
  from dup_value[OF v, of val] obtain s1 valuec where d:
    "(case val of None \<Rightarrow> (s, None) | Some x \<Rightarrow> strdup s x) = (s1, valuec)"
    "store_view s1 p n sl a blk" "entries s1 p = entries s p"
    "ok_val (strs s1) sl valuec"
    "str_at (strs s1) valuec = ?v'"
    "oom s1 = ?os" "errs s1 = errs s" "nodes s1 = nodes s"
    "strs s1 = strs s @ (case valuec of None \<Rightarrow> [] | Some q \<Rightarrow> [val])"
    "valuec = None \<or> valuec = Some (length (strs s))"
    "valuec = None \<longleftrightarrow> val = None \<or> next_fails (oom s)"
    by blast
  have unf: "mxmlElementSetAttr s (Some p) (Some nm) val = set_or_release s1 p nm valuec"
    using SetAttr_unfold[OF nd ty, of nm val] d(1) by simp
  show ?thesis
  proof (cases "first_index nm (map fst (entries s p))")
    case (Some j)
    then have fi: "first_index nm (map fst (entries s1 p)) = Some j" using d(3) by simp
    from set_or_release_found[OF d(2) fi d(4)] obtain s' where r:
      "set_or_release s1 p nm valuec = Inr s'" "wf_attrs s' p"
      "nodes s' = nodes s1" "errs s' = errs s1" "oom s' = oom s1"
      "entries s' p = (entries s1 p)[j := (nm, str_at (strs s1) valuec)]"
      by blast
    show ?thesis
      using unf r d(3,5,6,7,8) Some by (intro exI[of _ s']) simp
  next
    case None
    then have fi: "first_index nm (map fst (entries s1 p)) = None" using d(3) by simp
    show ?thesis
    proof (cases "next_fails ?os \<or> next_fails (tl ?os)")
      case True
      then have f: "next_fails (oom s1) \<or> next_fails (tl (oom s1))" using d(6) by simp
      from set_or_release_new_fail[OF d(2) fi d(4) f] obtain s' where r:
        "set_or_release s1 p nm valuec = Inr s'" "wf_attrs s' p"
        "errs s' = errs s1 @ [alloc_message nm (elem_name (v_element (node_value n)))]"
        "\<forall>r. r \<noteq> p \<longrightarrow> nodes s' r = nodes s1 r"
        "entries s' p = entries s1 p"
        "strs s' = (case valuec of None \<Rightarrow> strs s1 | Some q \<Rightarrow> (strs s1)[q := None])"
        by blast
      have cells: "strs s' = strs s @ (if val = None \<or> next_fails (oom s) then [] else [None])"
      proof (cases valuec)
        case None
        then show ?thesis using r(6) d(9,11) by simp
      next
        case (Some q)
        with d(10) have "q = length (strs s)" by simp
        then show ?thesis using r(6) d(9,11) Some by simp
      qed
      show ?thesis
        using unf r(1-5) cells d(3,7,8) None True by (intro exI[of _ s']) simp
    next
      case False
      then have f1: "\<not> next_fails (oom s1)" and f2: "\<not> next_fails (tl (oom s1))"
        using d(6) by simp_all
      from set_or_release_new_ok[OF d(2) fi d(4) f1 f2] obtain s' where r:
        "set_or_release s1 p nm valuec = Inr s'" "wf_attrs s' p"
        "errs s' = errs s1" "oom s' = tl (tl (oom s1))"
        "\<forall>r. r \<noteq> p \<longrightarrow> nodes s' r = nodes s1 r"
        "entries s' p = entries s1 p @ [(nm, str_at (strs s1) valuec)]"
        by blast
      show ?thesis
        using unf r d(3,5,6,7,8) None False by (intro exI[of _ s']) simp
    qed
  qed
qed

lemma SetAttrf_cases:
  assumes wf: "wf_attrs s p" and nd: "nodes s p = Some n"
  shows "\<exists>s'. mxmlElementSetAttrf render s (Some p) (Some nm) (Some fmt) ap = Inr s'
          \<and> wf_attrs s' p
          \<and> (\<forall>r. r \<noteq> p \<longrightarrow> nodes s' r = nodes s r)
          \<and> (case (if next_fails (oom s) then None else render fmt ap) of
                None \<Rightarrow>
                  entries s' p = entries s p
                  \<and> errs s' = errs s @ [alloc_message nm (elem_name (v_element (node_value n)))]
                  \<and> strs s' = strs s \<and> nodes s' = nodes s
              | Some x \<Rightarrow>
                  (case first_index nm (map fst (entries s p)) of
                     Some j \<Rightarrow>
                       entries s' p = (entries s p)[j := (nm, Some x)]
                       \<and> nodes s' = nodes s \<and> errs s' = errs s \<and> oom s' = tl (oom s)
                   | None \<Rightarrow>
                       if next_fails (tl (oom s)) \<or> next_fails (tl (tl (oom s)))
                       then entries s' p = entries s p
                            \<and> errs s' = errs s
                                 @ [alloc_message nm (elem_name (v_element (node_value n)))]
                            \<and> strs s' = strs s @ [None]
                       else entries s' p = entries s p @ [(nm, Some x)]
                            \<and> errs s' = errs s
                            \<and> oom s' = tl (tl (tl (oom s)))))"
proof -
  from wf_view[OF wf] obtain n0 sl a blk where v0: "store_view s p n0 sl a blk"
    by blast
  with nd have v: "store_view s p n sl a blk"
    using view_node[OF v0] by simp
  have ty: "node_type n = MXML_ELEMENT" using view_node[OF v] by simp
  note unf = SetAttrf_unfold[OF nd ty, of render nm fmt ap]
  let ?msg = "alloc_message nm (elem_name (v_element (node_value n)))"
  show ?thesis
  proof (cases "render fmt ap")
    case None
    let ?s' = "mxml_error s ?msg"
    have sv: "store_view ?s' p n sl a blk" "entries ?s' p = entries s p"
      using store_view_strs_frame[OF v, of ?s'] by (simp_all add: mxml_error_def)
    show ?thesis
      using unf None view_wf[OF sv(1)] sv(2)
      by (intro exI[of _ ?s']) (simp add: mxml_vstrdupf_def mxml_error_def)
  next
    case (Some x)
    from dup_value[OF v, of "Some x"] obtain s1 valuec where d:
      "strdup s x = (s1, valuec)"
      "store_view s1 p n sl a blk" "entries s1 p = entries s p"
      "ok_val (strs s1) sl valuec"
      "str_at (strs s1) valuec = (if next_fails (oom s) then None else Some x)"
      "oom s1 = tl (oom s)" "errs s1 = errs s" "nodes s1 = nodes s"
      "strs s1 = strs s @ (case valuec of None \<Rightarrow> [] | Some q \<Rightarrow> [Some x])"
      "valuec = None \<or> valuec = Some (length (strs s))"
      by auto
    show ?thesis
    proof (cases "next_fails (oom s)")
      case True
      then have vn: "valuec = None" using d(1) by (simp add: strdup_def)
      let ?s' = "mxml_error s1 ?msg"
      have sv: "store_view ?s' p n sl a blk" "entries ?s' p = entries s1 p"
        using store_view_strs_frame[OF d(2), of ?s'] by (simp_all add: mxml_error_def)
      show ?thesis
        using unf Some True vn d(1,3,7,8,9) view_wf[OF sv(1)] sv(2)
        by (intro exI[of _ ?s']) (simp add: mxml_vstrdupf_def mxml_error_def)
    next
      case False
      then have vs: "valuec = Some (length (strs s))" using d(1) by (simp add: strdup_def)
      have unf': "mxmlElementSetAttrf render s (Some p) (Some nm) (Some fmt) ap
                  = set_or_release s1 p nm valuec"
        using unf Some d(1) vs by (simp add: mxml_vstrdupf_def)
      have sa: "str_at (strs s1) valuec = Some x" using d(5) False by simp
      show ?thesis
      proof (cases "first_index nm (map fst (entries s p))")
        case (Some j)
        then have fi: "first_index nm (map fst (entries s1 p)) = Some j" using d(3) by simp
        from set_or_release_found[OF d(2) fi d(4)] obtain s' where r:
          "set_or_release s1 p nm valuec = Inr s'" "wf_attrs s' p"
          "nodes s' = nodes s1" "errs s' = errs s1" "oom s' = oom s1"
          "entries s' p = (entries s1 p)[j := (nm, str_at (strs s1) valuec)]"
          by blast
        show ?thesis
          using unf' r d(3,6,7,8) sa Some False \<open>render fmt ap = Some x\<close>
          by (intro exI[of _ s']) simp
      next
        case None
        then have fi: "first_index nm (map fst (entries s1 p)) = None" using d(3) by simp
        show ?thesis
        proof (cases "next_fails (tl (oom s)) \<or> next_fails (tl (tl (oom s)))")
          case True
          then have f: "next_fails (oom s1) \<or> next_fails (tl (oom s1))" using d(6) by simp
          from set_or_release_new_fail[OF d(2) fi d(4) f] obtain s' where r:
            "set_or_release s1 p nm valuec = Inr s'" "wf_attrs s' p"
            "errs s' = errs s1 @ [?msg]"
            "\<forall>r. r \<noteq> p \<longrightarrow> nodes s' r = nodes s1 r"
            "entries s' p = entries s1 p"
            "strs s' = (case valuec of None \<Rightarrow> strs s1 | Some q \<Rightarrow> (strs s1)[q := None])"
            by blast
          have cells: "strs s' = strs s @ [None]"
            using r(6) d(9) vs by simp
          show ?thesis
            using unf' r(1-5) cells d(3,7,8) None True False \<open>render fmt ap = Some x\<close>
            by (intro exI[of _ s']) simp
        next
          case F2: False
          then have f1: "\<not> next_fails (oom s1)" and f2: "\<not> next_fails (tl (oom s1))"
            using d(6) by simp_all
          from set_or_release_new_ok[OF d(2) fi d(4) f1 f2] obtain s' where r:
            "set_or_release s1 p nm valuec = Inr s'" "wf_attrs s' p"
            "errs s' = errs s1" "oom s' = tl (tl (oom s1))"
            "\<forall>r. r \<noteq> p \<longrightarrow> nodes s' r = nodes s1 r"
            "entries s' p = entries s1 p @ [(nm, str_at (strs s1) valuec)]"
            by blast
          show ?thesis
            using unf' r d(3,6,7,8) sa None F2 False \<open>render fmt ap = Some x\<close>
            by (intro exI[of _ s']) simp
        qed
      qed
    qed
  qed
qed

lemma Delete_cases:
  assumes wf: "wf_attrs s p"
  shows "\<exists>s'. mxmlElementDeleteAttr s (Some p) (Some nm) = Inr s' \<and> wf_attrs s' p
          \<and> entries s' p = spec_delete nm (entries s p)
          \<and> errs s' = errs s \<and> oom s' = oom s
          \<and> (\<forall>r. r \<noteq> p \<longrightarrow> nodes s' r = nodes s r)
          \<and> (nm \<notin> set (map fst (entries s p)) \<longrightarrow> s' = s)
          \<and> (nm \<in> set (map fst (entries s p)) \<longrightarrow>
                backing_array s' p = backing_array s p
                \<and> array_live s (backing_array s p)
                \<and> (array_live s' (backing_array s p) \<longleftrightarrow> length (entries s p) \<noteq> 1))"
proof -
  from wf_view[OF wf] obtain n sl a blk where v: "store_view s p n sl a blk"
    by blast
  show ?thesis
  proof (cases "first_index nm (map fst (entries s p))")
    case None
    then have "nm \<notin> set (map fst (entries s p))"
      by (simp add: first_index_None)
    then show ?thesis
      using delete_missing[OF v None] wf None by (simp add: spec_delete_def)
  next
    case (Some j)
    from delete_found[OF v Some] obtain s' n' blk' where r:
      "mxmlElementDeleteAttr s (Some p) (Some nm) = Inr s'"
      "store_view s' p n' (take j sl @ drop (Suc j) sl) a blk'"
      "entries s' p = take j (entries s p) @ drop (Suc j) (entries s p)"
      "errs s' = errs s" "oom s' = oom s" "\<forall>r. r \<noteq> p \<longrightarrow> nodes s' r = nodes s r"
      "cell (arrs s) a \<noteq> None" "cell (arrs s') a = None \<longleftrightarrow> length sl = 1"
      "attrs (v_element (node_value n)) = Some a" "attrs (v_element (node_value n')) = Some a"
      by (elim exE conjE) simp
    have ba: "backing_array s p = Some a" "backing_array s' p = Some a"
      using view_node[OF v] view_node[OF r(2)] r(9,10) by (simp_all add: backing_array_def)
    have len: "length (entries s p) = length sl"
      using view_entries[OF v] by simp
    have arr: "array_live s (backing_array s p)"
      "array_live s' (backing_array s p) \<longleftrightarrow> length (entries s p) \<noteq> 1"
      using ba r(7,8) len by (simp_all add: array_live_def)
    have mem: "nm \<in> set (map fst (entries s p))"
      using Some first_index_None[of nm "map fst (entries s p)"] by auto
    show ?thesis
      using r(1,3,4,5,6) view_wf[OF r(2)] Some ba arr mem
      by (intro exI[of _ s']) (simp add: spec_delete_def)
  qed
qed

subsection \<open>Consequences for the callers\<close>

lemma empty_wf:
  assumes "empty_element s p"
  shows "wf_attrs s p" and "entries s p = []"
  using assms
  by (auto simp: empty_element_def wf_attrs_def entries_def slots_def split: option.splits)

lemma wf_node:
  assumes "wf_attrs s p"
  obtains n where "nodes s p = Some n" "node_type n = MXML_ELEMENT"
  using assms by (auto simp: wf_attrs_def split: option.splits)

lemma no_failure_next: "True \<notin> set os \<Longrightarrow> \<not> next_fails os"
  by (cases os) (auto simp: next_fails_def)

lemma no_failure_tl: "True \<notin> set os \<Longrightarrow> True \<notin> set (tl os)"
  by (cases os) auto

lemma SetAttr_ok:
  assumes wf: "wf_attrs s p" and nf: "no_failure s"
  shows "\<exists>s'. mxmlElementSetAttr s (Some p) (Some nm) val = Inr s' \<and> wf_attrs s' p
          \<and> entries s' p = spec_set nm val (entries s p)
          \<and> no_failure s' \<and> errs s' = errs s
          \<and> (nm \<in> set (map fst (entries s p)) \<longrightarrow> nodes s' = nodes s)"
proof -
  from wf obtain n where n: "nodes s p = Some n" by (rule wf_node)
  let ?os = "if val = None then oom s else tl (oom s)"
  have o0: "True \<notin> set (oom s)" using nf by (simp add: no_failure_def)
  have o1: "True \<notin> set ?os" using o0 no_failure_tl by simp
  have f0: "\<not> next_fails (oom s)" using o0 by (rule no_failure_next)
  have f1: "\<not> next_fails ?os" using o1 by (rule no_failure_next)
  have f2: "\<not> next_fails (tl ?os)" using o1 no_failure_tl no_failure_next by blast
  have o3: "True \<notin> set (tl (tl ?os))" using o1 no_failure_tl by blast
  from SetAttr_cases[OF wf n, of nm val] obtain s' where r:
    "mxmlElementSetAttr s (Some p) (Some nm) val = Inr s'" "wf_attrs s' p"
    "case first_index nm (map fst (entries s p)) of
       Some j \<Rightarrow>
         entries s' p = (entries s p)[j := (nm, if next_fails (oom s) then None else val)]
         \<and> nodes s' = nodes s \<and> errs s' = errs s \<and> oom s' = ?os
     | None \<Rightarrow>
         if next_fails ?os \<or> next_fails (tl ?os)
         then entries s' p = entries s p
              \<and> errs s' = errs s @ [alloc_message nm (elem_name (v_element (node_value n)))]
              \<and> strs s' = strs s @ (if val = None \<or> next_fails (oom s) then [] else [None])
         else entries s' p = entries s p @ [(nm, if next_fails (oom s) then None else val)]
              \<and> errs s' = errs s \<and> oom s' = tl (tl ?os)"
    by blast
  show ?thesis
  proof (cases "first_index nm (map fst (entries s p))")
    case None
    then have "nm \<notin> set (map fst (entries s p))" by (simp add: first_index_None)
    moreover from r(3) None f0 f1 f2 have "entries s' p = entries s p @ [(nm, val)]"
      "errs s' = errs s" "oom s' = tl (tl ?os)"
      by simp_all
    ultimately show ?thesis
      using r(1,2) None o3 by (intro exI[of _ s']) (simp add: spec_set_def no_failure_def)
  next
    case (Some j)
    from r(3) Some f0 have "entries s' p = (entries s p)[j := (nm, val)]"
      "nodes s' = nodes s" "errs s' = errs s" "oom s' = ?os"
      by simp_all
    then show ?thesis
      using r(1,2) Some o1 by (intro exI[of _ s']) (simp add: spec_set_def no_failure_def)
  qed
qed

lemma getAttribute_null_name:
  "nodes s p = Some n \<Longrightarrow> getAttribute s (Some p) None = Inr None"
  by (simp add: getAttribute_def mxmlElementGetAttr_def load_node_def read_opt_def)

lemma GetAttrByIndex_out:
  assumes "out_of_range s node idx"
  shows "mxmlElementGetAttrByIndex s node idx nv = Inr (None, nv)"
  using assms
  by (auto simp: out_of_range_def mxmlElementGetAttrByIndex_def load_node_def
      split: option.splits)

lemma getAttributeByIndex_out:
  assumes "wf_attrs s p" and "idx < 0 \<or> int (length (entries s p)) \<le> idx"
  shows "getAttributeByIndex s (Some p) idx = Inr (None, None)"
proof -
  from wf_view[OF assms(1)] obtain n sl a blk where v: "store_view s p n sl a blk"
    by blast
  have "out_of_range s (Some p) idx"
    using view_node[OF v] view_count[OF v] view_entries[OF v] assms(2)
    by (auto simp: out_of_range_def)
  from GetAttrByIndex_out[OF this, of "Some None"] show ?thesis
    by (simp add: getAttributeByIndex_def read_opt_def)
qed

lemma same_attributes_entries:
  assumes wf: "wf_attrs s p" and wf': "wf_attrs s' p" and e: "entries s' p = entries s p"
  shows "same_attributes s s' (Some p)"
  unfolding same_attributes_def
proof (intro conjI allI)
  show "getAttributeCount s' (Some p) = getAttributeCount s (Some p)"
    using getAttributeCount_wf[OF wf] getAttributeCount_wf[OF wf'] e by simp
next
  fix name
  from wf obtain n where n: "nodes s p = Some n" by (rule wf_node)
  from wf' obtain n' where n': "nodes s' p = Some n'" by (rule wf_node)
  show "getAttribute s' (Some p) name = getAttribute s (Some p) name"
  proof (cases name)
    case None
    then show ?thesis
      using getAttribute_null_name[OF n] getAttribute_null_name[OF n'] by simp
  next
    case (Some nm)
    then show ?thesis
      using getAttribute_wf[OF wf, of nm] getAttribute_wf[OF wf', of nm, unfolded e] by simp
  qed
next
  fix idx
  show "getAttributeByIndex s' (Some p) idx = getAttributeByIndex s (Some p) idx"
  proof (cases "idx < 0 \<or> int (length (entries s p)) \<le> idx")
    case True
    then show ?thesis
      using getAttributeByIndex_out[OF wf, of idx] getAttributeByIndex_out[OF wf', of idx] e
      by simp
  next
    case False
    then have i: "nat idx < length (entries s p)" "int (nat idx) = idx" by auto
    show ?thesis
      using getAttributeByIndex_wf[OF wf i(1)] getAttributeByIndex_wf[OF wf', of "nat idx"]
        i e by simp
  qed
qed

lemma first_index_distinct_update:
  assumes "first_index nm (map fst al) = Some j"
  shows "map fst (al[j := (nm, v)]) = map fst al"
proof -
  from first_index_Some[OF assms] have "j < length al" "fst (al ! j) = nm" by auto
  then show ?thesis
    by (simp add: map_update list_update_same_conv)
qed

lemma names_spec_set:
  assumes "distinct (map fst al)"
  shows "distinct (map fst (spec_set nm v al))"
proof (cases "first_index nm (map fst al)")
  case None
  then have "nm \<notin> set (map fst al)" by (simp add: first_index_None)
  then show ?thesis using assms None by (simp add: spec_set_def)
next
  case (Some j)
  then show ?thesis
    using assms first_index_distinct_update[OF Some, of v] by (simp add: spec_set_def)
qed

lemma names_spec_delete:
  assumes "distinct (map fst al)"
  shows "distinct (map fst (spec_delete nm al))"
proof (cases "first_index nm (map fst al)")
  case None
  then show ?thesis using assms by (simp add: spec_delete_def)
next
  case (Some j)
  have "set (take j (map fst al)) \<inter> set (drop (Suc j) (map fst al)) = {}"
    using assms by (intro set_take_disj_set_drop_if_distinct) simp_all
  then have "distinct (take j (map fst al) @ drop (Suc j) (map fst al))"
    using assms by simp
  then show ?thesis using Some by (simp add: spec_delete_def take_map drop_map)
qed

section \<open>Properties of the attribute store as its callers see it\<close>

lemma ex_store_facts:
  "empty_element ex_store 20" "no_failure ex_store"
  by (simp_all add: ex_store_def empty_element_def no_failure_def mk_element_def)

text \<open>
  Claim C1.  On an element whose attribute set is empty, and while no allocation request
  fails, \<^verbatim>\<open>mxmlElementSetAttr\<close> with a name and a value \<open>v1\<close> followed by the same name and a
  value \<open>v2\<close> leaves a count of \<open>1\<close>, and \<open>getAttribute\<close> of the name yields \<open>v2\<close>.  The
  second call replaces the value in place: the count is \<open>1\<close> before and after it, the node
  (its counter and its array pointer) is untouched, and the only entry still carries the name.
\<close>

theorem set_twice_replaces_in_place:
  assumes "empty_element s p" and "no_failure s"
  shows "\<exists>s1 s2. mxmlElementSetAttr s (Some p) (Some nm) v1 = Inr s1
          \<and> mxmlElementSetAttr s1 (Some p) (Some nm) v2 = Inr s2
          \<and> getAttributeCount s1 (Some p) = Inr 1
          \<and> nodes s2 = nodes s1
          \<and> getAttributeCount s2 (Some p) = Inr 1
          \<and> getAttribute s2 (Some p) (Some nm) = Inr v2
          \<and> getAttributeByIndex s2 (Some p) 0 = Inr (v2, Some nm)"
proof -
  note w0 = empty_wf[OF assms(1)]
  from SetAttr_ok[OF w0(1) assms(2), of nm v1] obtain s1 where s1:
    "mxmlElementSetAttr s (Some p) (Some nm) v1 = Inr s1" "wf_attrs s1 p"
    "entries s1 p = spec_set nm v1 (entries s p)" "no_failure s1"
    by blast
  have e1: "entries s1 p = [(nm, v1)]"
    using s1(3) w0(2) by (simp add: spec_set_def)
  from SetAttr_ok[OF s1(2) s1(4), of nm v2] obtain s2 where s2:
    "mxmlElementSetAttr s1 (Some p) (Some nm) v2 = Inr s2" "wf_attrs s2 p"
    "entries s2 p = spec_set nm v2 (entries s1 p)"
    "nm \<in> set (map fst (entries s1 p)) \<longrightarrow> nodes s2 = nodes s1"
    by blast
  have e2: "entries s2 p = [(nm, v2)]"
    using s2(3) e1 by (simp add: spec_set_def)
  have n2: "nodes s2 = nodes s1" using s2(4) e1 by simp
  have c1: "getAttributeCount s1 (Some p) = Inr 1"
    using getAttributeCount_wf[OF s1(2)] e1 by simp
  have c2: "getAttributeCount s2 (Some p) = Inr 1"
    using getAttributeCount_wf[OF s2(2)] e2 by simp
  have g2: "getAttribute s2 (Some p) (Some nm) = Inr v2"
    using getAttribute_wf[OF s2(2), of nm] e2 by simp
  have i2: "getAttributeByIndex s2 (Some p) 0 = Inr (v2, Some nm)"
    using getAttributeByIndex_wf[OF s2(2), of 0] e2 by simp
  show ?thesis
    using s1(1) s2(1) c1 n2 c2 g2 i2 by blast
qed

theorem set_twice_replaces_in_place_witness:
  "empty_element ex_store 20 \<and> no_failure ex_store
   \<and> (\<exists>s1 s2. mxmlElementSetAttr ex_store (Some 20) (Some ''id'') (Some ''1'') = Inr s1
          \<and> mxmlElementSetAttr s1 (Some 20) (Some ''id'') (Some ''2'') = Inr s2
          \<and> getAttributeCount s1 (Some 20) = Inr 1
          \<and> nodes s2 = nodes s1
          \<and> getAttributeCount s2 (Some 20) = Inr 1
          \<and> getAttribute s2 (Some 20) (Some ''id'') = Inr (Some ''2'')
          \<and> getAttributeByIndex s2 (Some 20) 0 = Inr (Some ''2'', Some ''id''))"
  using set_twice_replaces_in_place[OF ex_store_facts, of "''id''" "Some ''1''" "Some ''2''"]
    ex_store_facts
  by (intro conjI)

text \<open>
  Claim C10.  On a well-formed store with no entry named \<open>nm\<close>, and while no allocation
  request fails, \<^verbatim>\<open>mxmlElementSetAttr\<close> with a \<^verbatim>\<open>NULL\<close> value appends an entry: the count
  grows by one, yet \<open>getAttribute\<close> of the name yields none after the call as it did before
  it; \<open>getAttributeByIndex\<close> at the new last position shows the entry, with its name and no
  value.
\<close>

theorem absent_value_entry_hidden_from_getAttribute:
  assumes "wf_attrs s p" and "nm \<notin> set (map fst (entries s p))" and "no_failure s"
  shows "\<exists>s'. mxmlElementSetAttr s (Some p) (Some nm) None = Inr s'
          \<and> getAttributeCount s (Some p) = Inr (int (length (entries s p)))
          \<and> getAttributeCount s' (Some p) = Inr (int (length (entries s p)) + 1)
          \<and> getAttribute s (Some p) (Some nm) = Inr None
          \<and> getAttribute s' (Some p) (Some nm) = Inr None
          \<and> getAttributeByIndex s' (Some p) (int (length (entries s p))) = Inr (None, Some nm)"
proof -
  have fi: "first_index nm (map fst (entries s p)) = None"
    using assms(2) by (simp add: first_index_None)
  from SetAttr_ok[OF assms(1,3), of nm None] obtain s' where s':
    "mxmlElementSetAttr s (Some p) (Some nm) None = Inr s'" "wf_attrs s' p"
    "entries s' p = spec_set nm None (entries s p)"
    by blast
  have e: "entries s' p = entries s p @ [(nm, None)]"
    using s'(3) fi by (simp add: spec_set_def)
  have fi': "first_index nm (map fst (entries s' p)) = Some (length (entries s p))"
    using first_index_append_hit[of nm "map fst (entries s p)" "[]"] assms(2) e by simp
  have c: "getAttributeCount s (Some p) = Inr (int (length (entries s p)))"
    by (rule getAttributeCount_wf[OF assms(1)])
  have c': "getAttributeCount s' (Some p) = Inr (int (length (entries s p)) + 1)"
    using getAttributeCount_wf[OF s'(2)] e by simp
  have g: "getAttribute s (Some p) (Some nm) = Inr None"
    using getAttribute_wf[OF assms(1), of nm] fi by simp
  have g': "getAttribute s' (Some p) (Some nm) = Inr None"
    using getAttribute_wf[OF s'(2), of nm] fi' e by simp
  have i': "getAttributeByIndex s' (Some p) (int (length (entries s p))) = Inr (None, Some nm)"
    using getAttributeByIndex_wf[OF s'(2), of "length (entries s p)"] e by simp
  show ?thesis
    using s'(1) c c' g g' i' by blast
qed

theorem absent_value_entry_hidden_from_getAttribute_witness:
  "wf_attrs ex_store 20 \<and> ''id'' \<notin> set (map fst (entries ex_store 20)) \<and> no_failure ex_store
   \<and> (\<exists>s'. mxmlElementSetAttr ex_store (Some 20) (Some ''id'') None = Inr s'
          \<and> getAttributeCount ex_store (Some 20) = Inr 0
          \<and> getAttributeCount s' (Some 20) = Inr 1
          \<and> getAttribute ex_store (Some 20) (Some ''id'') = Inr None
          \<and> getAttribute s' (Some 20) (Some ''id'') = Inr None
          \<and> getAttributeByIndex s' (Some 20) 0 = Inr (None, Some ''id''))"
proof -
  note w = empty_wf[OF ex_store_facts(1)]
  have h: "''id'' \<notin> set (map fst (entries ex_store 20))" using w(2) by simp
  from absent_value_entry_hidden_from_getAttribute[OF w(1) h ex_store_facts(2)]
  show ?thesis using w h ex_store_facts(2) by simp
qed

text \<open>
  Claim C4, amended.  The guard of \<^verbatim>\<open>mxmlElementSetAttr\<close> and \<^verbatim>\<open>mxmlElementGetAttr\<close> is
  \<^verbatim>\<open>!name\<close>: with a \<^verbatim>\<open>NULL\<close> name the setter changes nothing and the getter returns none.
  An empty name that is not \<^verbatim>\<open>NULL\<close> is a name like any other: while no allocation request
  fails the setter stores the entry under it (replacing or appending, as the spec describes
  a set), and \<open>getAttribute\<close> with the empty name returns the value just stored.
\<close>

theorem null_name_rejected_empty_name_stored:
  assumes "wf_attrs s p" and "no_failure s"
  shows "mxmlElementSetAttr s (Some p) None val = Inr s
       \<and> getAttribute s (Some p) None = Inr None
       \<and> (\<exists>s'. mxmlElementSetAttr s (Some p) (Some []) val = Inr s'
              \<and> entries s' p = spec_set [] val (entries s p)
              \<and> getAttribute s' (Some p) (Some []) = Inr val)"
proof -
  from assms(1) obtain n where n: "nodes s p = Some n" "node_type n = MXML_ELEMENT"
    by (rule wf_node)
  have a: "mxmlElementSetAttr s (Some p) None val = Inr s"
    using n by (simp add: mxmlElementSetAttr_def load_node_def)
  have b: "getAttribute s (Some p) None = Inr None"
    by (rule getAttribute_null_name[OF n(1)])
  from SetAttr_ok[OF assms, of "[]" val] obtain s' where s':
    "mxmlElementSetAttr s (Some p) (Some []) val = Inr s'" "wf_attrs s' p"
    "entries s' p = spec_set [] val (entries s p)"
    by blast
  have g: "getAttribute s' (Some p) (Some []) = Inr val"
  proof (cases "first_index [] (map fst (entries s p))")
    case None
    then have ni: "[] \<notin> set (map fst (entries s p))" by (simp add: first_index_None)
    have e: "entries s' p = entries s p @ [([], val)]"
      using s'(3) None by (simp add: spec_set_def)
    have "first_index [] (map fst (entries s' p)) = Some (length (entries s p))"
      using first_index_append_hit[of "[]" "map fst (entries s p)" "[]"] ni e by simp
    then show ?thesis
      using getAttribute_wf[OF s'(2), of "[]"] e by simp
  next
    case (Some j)
    have e: "entries s' p = (entries s p)[j := ([], val)]"
      using s'(3) Some by (simp add: spec_set_def)
    have j: "j < length (entries s p)" using first_index_Some[OF Some] by simp
    have "first_index [] (map fst (entries s' p)) = Some j"
      using first_index_distinct_update[OF Some, of val] Some e by simp
    then show ?thesis
      using getAttribute_wf[OF s'(2), of "[]"] e j by simp
  qed
  show ?thesis using a b s'(1,3) g by blast
qed

theorem null_name_rejected_empty_name_stored_witness:
  "wf_attrs ex_store 20 \<and> no_failure ex_store
   \<and> mxmlElementSetAttr ex_store (Some 20) None (Some ''v'') = Inr ex_store
   \<and> getAttribute ex_store (Some 20) None = Inr None
   \<and> (\<exists>s'. mxmlElementSetAttr ex_store (Some 20) (Some []) (Some ''v'') = Inr s'
          \<and> entries s' 20 = [([], Some ''v'')]
          \<and> getAttribute s' (Some 20) (Some []) = Inr (Some ''v''))"
proof -
  note w = empty_wf[OF ex_store_facts(1)]
  from null_name_rejected_empty_name_stored[OF w(1) ex_store_facts(2), of "Some ''v''"]
  show ?thesis using w ex_store_facts(2) by (simp add: spec_set_def)
qed

text \<open>
  Claim C4 as stated fails: on the example element, which has no attributes, a set with the
  empty name and the value \<open>v\<close> makes the count \<open>1\<close>, and \<open>getAttribute\<close> with the empty name
  then returns \<open>v\<close>.
\<close>

theorem empty_name_counterexample:
  "getAttributeCount ex_store (Some 20) = Inr 0
   \<and> count_after_set ex_store (Some 20) (Some []) (Some ''v'') = Inr 1
   \<and> get_after_set ex_store (Some 20) (Some []) (Some ''v'') (Some []) = Inr (Some ''v'')"
  by code_simp

text \<open>
  Claim C5, amended.  When the index is out of range (the node is \<^verbatim>\<open>NULL\<close> or not an
  element, or the index is negative or not below the count), \<^verbatim>\<open>mxmlElementGetAttrByIndex\<close>
  returns \<^verbatim>\<open>NULL\<close> and does not write through \<^verbatim>\<open>name\<close>: the caller's variable keeps what it
  held.
\<close>

theorem index_out_of_range_leaves_name:
  assumes "out_of_range s node idx"
  shows "mxmlElementGetAttrByIndex s node idx name = Inr (None, name)"
  using assms
  by (auto simp: out_of_range_def mxmlElementGetAttrByIndex_def load_node_def
      split: option.splits)

lemma ex_store_out_of_range:
  "out_of_range ex_store (Some 20) 0" "out_of_range ex_store (Some 20) (- 1)"
  "out_of_range ex_store None 0"
  by (simp_all add: out_of_range_def ex_store_def mk_element_def)

theorem index_out_of_range_leaves_name_witness:
  "out_of_range ex_store (Some 20) (- 1)
   \<and> mxmlElementGetAttrByIndex ex_store (Some 20) (- 1) (Some None) = Inr (None, Some None)"
  using index_out_of_range_leaves_name[OF ex_store_out_of_range(2), of "Some None"]
    ex_store_out_of_range(2)
  by simp

text \<open>
  Claim C5 as stated fails: index \<open>0\<close> is out of range on the example element, and a
  caller's \<^verbatim>\<open>name\<close> variable that held the pointer \<open>5\<close> before the call still holds it
  afterwards; it has not been set to \<^verbatim>\<open>NULL\<close>.
\<close>

theorem index_out_of_range_counterexample:
  "out_of_range ex_store (Some 20) 0
   \<and> mxmlElementGetAttrByIndex ex_store (Some 20) 0 (Some (Some 5)) = Inr (None, Some (Some 5))
   \<and> mxmlElementGetAttrByIndex ex_store (Some 20) 0 (Some (Some 5)) \<noteq> Inr (None, Some None)"
  by code_simp

text \<open>
  Claim C3.  Starting from an empty attribute set, with no allocation request failing, insert
  three different names \<open>a\<close>, \<open>b\<close>, \<open>c\<close> in that order and delete \<open>b\<close>: the count is \<open>2\<close>,
  index \<open>0\<close> yields \<open>a\<close> with its value and index \<open>1\<close> yields \<open>c\<close> with its value, and the
  backing array is still live.  Deleting \<open>a\<close> leaves one entry and a live array; deleting
  \<open>c\<close> as well brings the count to \<open>0\<close>, and the array the element pointed to is released.
\<close>

theorem delete_compacts_and_releases_at_zero:
  assumes "empty_element s p" and "no_failure s" and "a \<noteq> b" and "b \<noteq> c" and "a \<noteq> c"
  shows "\<exists>s1 s2 s3 s4 s5 s6.
           mxmlElementSetAttr s (Some p) (Some a) va = Inr s1
         \<and> mxmlElementSetAttr s1 (Some p) (Some b) vb = Inr s2
         \<and> mxmlElementSetAttr s2 (Some p) (Some c) vc = Inr s3
         \<and> mxmlElementDeleteAttr s3 (Some p) (Some b) = Inr s4
         \<and> getAttributeCount s4 (Some p) = Inr 2
         \<and> getAttributeByIndex s4 (Some p) 0 = Inr (va, Some a)
         \<and> getAttributeByIndex s4 (Some p) 1 = Inr (vc, Some c)
         \<and> array_live s4 (backing_array s4 p)
         \<and> mxmlElementDeleteAttr s4 (Some p) (Some a) = Inr s5
         \<and> getAttributeCount s5 (Some p) = Inr 1
         \<and> array_live s5 (backing_array s5 p)
         \<and> mxmlElementDeleteAttr s5 (Some p) (Some c) = Inr s6
         \<and> getAttributeCount s6 (Some p) = Inr 0
         \<and> \<not> array_live s6 (backing_array s5 p)"
proof -
  note w0 = empty_wf[OF assms(1)]
  from SetAttr_ok[OF w0(1) assms(2), of a va] obtain s1 where s1:
    "mxmlElementSetAttr s (Some p) (Some a) va = Inr s1" "wf_attrs s1 p"
    "entries s1 p = spec_set a va (entries s p)" "no_failure s1"
    by blast
  have e1: "entries s1 p = [(a, va)]"
    using s1(3) w0(2) by (simp add: spec_set_def)
  from SetAttr_ok[OF s1(2) s1(4), of b vb] obtain s2 where s2:
    "mxmlElementSetAttr s1 (Some p) (Some b) vb = Inr s2" "wf_attrs s2 p"
    "entries s2 p = spec_set b vb (entries s1 p)" "no_failure s2"
    by blast
  have e2: "entries s2 p = [(a, va), (b, vb)]"
    using s2(3) e1 assms(3) by (simp add: spec_set_def)
  from SetAttr_ok[OF s2(2) s2(4), of c vc] obtain s3 where s3:
    "mxmlElementSetAttr s2 (Some p) (Some c) vc = Inr s3" "wf_attrs s3 p"
    "entries s3 p = spec_set c vc (entries s2 p)"
    by blast
  have e3: "entries s3 p = [(a, va), (b, vb), (c, vc)]"
    using s3(3) e2 assms(4,5) by (simp add: spec_set_def)
  from Delete_cases[OF s3(2), of b] obtain s4 where s4:
    "mxmlElementDeleteAttr s3 (Some p) (Some b) = Inr s4" "wf_attrs s4 p"
    "entries s4 p = spec_delete b (entries s3 p)"
    "b \<in> set (map fst (entries s3 p)) \<longrightarrow>
       backing_array s4 p = backing_array s3 p \<and> array_live s3 (backing_array s3 p)
       \<and> (array_live s4 (backing_array s3 p) \<longleftrightarrow> length (entries s3 p) \<noteq> 1)"
    by blast
  have e4: "entries s4 p = [(a, va), (c, vc)]"
    using s4(3) e3 assms(3) by (simp add: spec_delete_def)
  have l4: "array_live s4 (backing_array s4 p)"
    using s4(4) e3 by simp
  from Delete_cases[OF s4(2), of a] obtain s5 where s5:
    "mxmlElementDeleteAttr s4 (Some p) (Some a) = Inr s5" "wf_attrs s5 p"
    "entries s5 p = spec_delete a (entries s4 p)"
    "a \<in> set (map fst (entries s4 p)) \<longrightarrow>
       backing_array s5 p = backing_array s4 p \<and> array_live s4 (backing_array s4 p)
       \<and> (array_live s5 (backing_array s4 p) \<longleftrightarrow> length (entries s4 p) \<noteq> 1)"
    by blast
  have e5: "entries s5 p = [(c, vc)]"
    using s5(3) e4 by (simp add: spec_delete_def)
  have l5: "array_live s5 (backing_array s5 p)"
    using s5(4) e4 by simp
  from Delete_cases[OF s5(2), of c] obtain s6 where s6:
    "mxmlElementDeleteAttr s5 (Some p) (Some c) = Inr s6" "wf_attrs s6 p"
    "entries s6 p = spec_delete c (entries s5 p)"
    "c \<in> set (map fst (entries s5 p)) \<longrightarrow>
       backing_array s6 p = backing_array s5 p \<and> array_live s5 (backing_array s5 p)
       \<and> (array_live s6 (backing_array s5 p) \<longleftrightarrow> length (entries s5 p) \<noteq> 1)"
    by blast
  have e6: "entries s6 p = []"
    using s6(3) e5 by (simp add: spec_delete_def)
  have l6: "\<not> array_live s6 (backing_array s5 p)"
    using s6(4) e5 by simp
  have c4: "getAttributeCount s4 (Some p) = Inr 2"
    using getAttributeCount_wf[OF s4(2)] e4 by simp
  have i40: "getAttributeByIndex s4 (Some p) 0 = Inr (va, Some a)"
    using getAttributeByIndex_wf[OF s4(2), of 0] e4 by simp
  have i41: "getAttributeByIndex s4 (Some p) 1 = Inr (vc, Some c)"
    using getAttributeByIndex_wf[OF s4(2), of 1] e4 by simp
  have c5: "getAttributeCount s5 (Some p) = Inr 1"
    using getAttributeCount_wf[OF s5(2)] e5 by simp
  have c6: "getAttributeCount s6 (Some p) = Inr 0"
    using getAttributeCount_wf[OF s6(2)] e6 by simp
  show ?thesis
    using s1(1) s2(1) s3(1) s4(1) c4 i40 i41 l4 s5(1) c5 l5 s6(1) c6 l6 by blast
qed

theorem delete_compacts_and_releases_at_zero_witness:
  "empty_element ex_store 20 \<and> no_failure ex_store \<and> ''a'' \<noteq> ''b'' \<and> ''b'' \<noteq> ''c''
   \<and> ''a'' \<noteq> ''c''
   \<and> (\<exists>s1 s2 s3 s4 s5 s6.
           mxmlElementSetAttr ex_store (Some 20) (Some ''a'') (Some ''1'') = Inr s1
         \<and> mxmlElementSetAttr s1 (Some 20) (Some ''b'') (Some ''2'') = Inr s2
         \<and> mxmlElementSetAttr s2 (Some 20) (Some ''c'') (Some ''3'') = Inr s3
         \<and> mxmlElementDeleteAttr s3 (Some 20) (Some ''b'') = Inr s4
         \<and> getAttributeCount s4 (Some 20) = Inr 2
         \<and> getAttributeByIndex s4 (Some 20) 0 = Inr (Some ''1'', Some ''a'')
         \<and> getAttributeByIndex s4 (Some 20) 1 = Inr (Some ''3'', Some ''c'')
         \<and> array_live s4 (backing_array s4 20)
         \<and> mxmlElementDeleteAttr s4 (Some 20) (Some ''a'') = Inr s5
         \<and> getAttributeCount s5 (Some 20) = Inr 1
         \<and> array_live s5 (backing_array s5 20)
         \<and> mxmlElementDeleteAttr s5 (Some 20) (Some ''c'') = Inr s6
         \<and> getAttributeCount s6 (Some 20) = Inr 0
         \<and> \<not> array_live s6 (backing_array s5 20))"
proof -
  have d: "''a'' \<noteq> ''b''" "''b'' \<noteq> ''c''" "''a'' \<noteq> ''c''" by simp_all
  from delete_compacts_and_releases_at_zero[OF ex_store_facts d,
      of "Some ''1''" "Some ''2''" "Some ''3''"]
  show ?thesis using ex_store_facts d by (intro conjI)
qed

text \<open>
  Claim C6.  On a well-formed store with no entry named \<open>nm\<close>, let the request that grows the
  array or the one that duplicates the name fail, in \<^verbatim>\<open>mxmlElementSetAttr\<close> (after the copy
  of the value, if there is a value) or in \<^verbatim>\<open>mxmlElementSetAttrf\<close> (after the formatted
  value has been allocated).  Then the call hands \<^verbatim>\<open>mxml_error\<close> the message that names the
  attribute and the element, the store stays well formed and answers all three getters as
  before, and the string heap is the old one followed by the freed cell of the value copy
  (when a copy was made): every address holds what it held before the call, the value string
  that was being handed over has been freed, and no slot refers to it.
\<close>

theorem allocation_failure_keeps_store:
  assumes "wf_attrs s p" and "nodes s p = Some n" and "nm \<notin> set (map fst (entries s p))"
  shows "(grow_fails (if val = None then oom s else tl (oom s)) \<longrightarrow>
            (\<exists>s'. mxmlElementSetAttr s (Some p) (Some nm) val = Inr s'
               \<and> errs s' = errs s @ [alloc_message nm (elem_name (v_element (node_value n)))]
               \<and> wf_attrs s' p \<and> same_attributes s s' (Some p)
               \<and> strs s' = strs s @ (if val = None \<or> next_fails (oom s) then [] else [None])
               \<and> (\<forall>q. cell (strs s') q = cell (strs s) q)))
       \<and> (render fmt ap = Some x \<and> \<not> next_fails (oom s) \<and> grow_fails (tl (oom s)) \<longrightarrow>
            (\<exists>s'. mxmlElementSetAttrf render s (Some p) (Some nm) (Some fmt) ap = Inr s'
               \<and> errs s' = errs s @ [alloc_message nm (elem_name (v_element (node_value n)))]
               \<and> wf_attrs s' p \<and> same_attributes s s' (Some p)
               \<and> strs s' = strs s @ [None]
               \<and> (\<forall>q. cell (strs s') q = cell (strs s) q)))"
proof (intro conjI impI)
  let ?msg = "alloc_message nm (elem_name (v_element (node_value n)))"
  have fi: "first_index nm (map fst (entries s p)) = None"
    using assms(3) by (simp add: first_index_None)
  {
    let ?os = "if val = None then oom s else tl (oom s)"
    let ?tail = "if val = None \<or> next_fails (oom s) then [] else [None]"
    assume "grow_fails ?os"
    then have f: "next_fails ?os \<or> next_fails (tl ?os)" by (simp add: grow_fails_def)
    from SetAttr_cases[OF assms(1,2), of nm val] obtain s' where r:
      "mxmlElementSetAttr s (Some p) (Some nm) val = Inr s'" "wf_attrs s' p"
      "case first_index nm (map fst (entries s p)) of
         Some j \<Rightarrow>
           entries s' p = (entries s p)[j := (nm, if next_fails (oom s) then None else val)]
           \<and> nodes s' = nodes s \<and> errs s' = errs s \<and> oom s' = ?os
       | None \<Rightarrow>
           if next_fails ?os \<or> next_fails (tl ?os)
           then entries s' p = entries s p \<and> errs s' = errs s @ [?msg]
                \<and> strs s' = strs s @ ?tail
           else entries s' p = entries s p @ [(nm, if next_fails (oom s) then None else val)]
                \<and> errs s' = errs s \<and> oom s' = tl (tl ?os)"
      by blast
    from r(3) fi f have o: "entries s' p = entries s p" "errs s' = errs s @ [?msg]"
      "strs s' = strs s @ ?tail"
      by simp_all
    have cells: "\<forall>q. cell (strs s') q = cell (strs s) q"
      using o(3) by (simp add: cell_snoc_None)
    have "same_attributes s s' (Some p)"
      by (rule same_attributes_entries[OF assms(1) r(2) o(1)])
    with r(1,2) o(2,3) cells
    show "\<exists>s'. mxmlElementSetAttr s (Some p) (Some nm) val = Inr s'
               \<and> errs s' = errs s @ [?msg]
               \<and> wf_attrs s' p \<and> same_attributes s s' (Some p)
               \<and> strs s' = strs s @ ?tail
               \<and> (\<forall>q. cell (strs s') q = cell (strs s) q)"
      by blast
  }
  {
    assume h: "render fmt ap = Some x \<and> \<not> next_fails (oom s) \<and> grow_fails (tl (oom s))"
    then have f: "next_fails (tl (oom s)) \<or> next_fails (tl (tl (oom s)))"
      by (simp add: grow_fails_def)
    from h have v: "(if next_fails (oom s) then None else render fmt ap) = Some x" by simp
    from SetAttrf_cases[OF assms(1,2), of render nm fmt ap] obtain s' where r:
      "mxmlElementSetAttrf render s (Some p) (Some nm) (Some fmt) ap = Inr s'" "wf_attrs s' p"
      "case (if next_fails (oom s) then None else render fmt ap) of
         None \<Rightarrow>
           entries s' p = entries s p \<and> errs s' = errs s @ [?msg]
           \<and> strs s' = strs s \<and> nodes s' = nodes s
       | Some x \<Rightarrow>
           (case first_index nm (map fst (entries s p)) of
              Some j \<Rightarrow>
                entries s' p = (entries s p)[j := (nm, Some x)]
                \<and> nodes s' = nodes s \<and> errs s' = errs s \<and> oom s' = tl (oom s)
            | None \<Rightarrow>
                if next_fails (tl (oom s)) \<or> next_fails (tl (tl (oom s)))
                then entries s' p = entries s p \<and> errs s' = errs s @ [?msg]
                     \<and> strs s' = strs s @ [None]
                else entries s' p = entries s p @ [(nm, Some x)]
                     \<and> errs s' = errs s \<and> oom s' = tl (tl (tl (oom s))))"
      by blast
    from r(3) have o: "entries s' p = entries s p" "errs s' = errs s @ [?msg]"
      "strs s' = strs s @ [None]"
      unfolding v using fi f by simp_all
    have cells: "\<forall>q. cell (strs s') q = cell (strs s) q"
      using o(3) by (simp add: cell_snoc_None)
    have "same_attributes s s' (Some p)"
      by (rule same_attributes_entries[OF assms(1) r(2) o(1)])
    with r(1,2) o(2,3) cells
    show "\<exists>s'. mxmlElementSetAttrf render s (Some p) (Some nm) (Some fmt) ap = Inr s'
               \<and> errs s' = errs s @ [?msg]
               \<and> wf_attrs s' p \<and> same_attributes s s' (Some p)
               \<and> strs s' = strs s @ [None]
               \<and> (\<forall>q. cell (strs s') q = cell (strs s) q)"
      by blast
  }
qed

lemma ex_store_oom_facts:
  "empty_element ex_store_oom 20"
  "nodes ex_store_oom 20 = Some (mk_node MXML_ELEMENT None None (mk_element ''item''))"
  "oom ex_store_oom = [False, True]" "errs ex_store_oom = []" "strs ex_store_oom = []"
  by (simp_all add: ex_store_oom_def ex_store_def empty_element_def mk_element_def)

theorem allocation_failure_keeps_store_witness:
  "wf_attrs ex_store_oom 20
   \<and> nodes ex_store_oom 20 = Some (mk_node MXML_ELEMENT None None (mk_element ''item''))
   \<and> ''id'' \<notin> set (map fst (entries ex_store_oom 20))
   \<and> grow_fails (tl (oom ex_store_oom))
   \<and> \<not> next_fails (oom ex_store_oom)
   \<and> (\<exists>s'. mxmlElementSetAttr ex_store_oom (Some 20) (Some ''id'') (Some ''1'') = Inr s'
          \<and> errs s' = [alloc_message ''id'' ''item'']
          \<and> wf_attrs s' 20 \<and> same_attributes ex_store_oom s' (Some 20)
          \<and> strs s' = [None]
          \<and> (\<forall>q. cell (strs s') q = cell (strs ex_store_oom) q))
   \<and> (\<exists>s'. mxmlElementSetAttrf (\<lambda>f (k::nat). Some (f @ ''1'')) ex_store_oom (Some 20)
              (Some ''id'') (Some ''n'') 0 = Inr s'
          \<and> errs s' = [alloc_message ''id'' ''item'']
          \<and> wf_attrs s' 20 \<and> same_attributes ex_store_oom s' (Some 20)
          \<and> strs s' = [None]
          \<and> (\<forall>q. cell (strs s') q = cell (strs ex_store_oom) q))"
proof -
  note w = empty_wf[OF ex_store_oom_facts(1)]
  have h: "''id'' \<notin> set (map fst (entries ex_store_oom 20))" using w(2) by simp
  have g: "grow_fails (tl (oom ex_store_oom))" "\<not> next_fails (oom ex_store_oom)"
    by (simp_all add: ex_store_oom_facts grow_fails_def next_fails_def)
  have en: "elem_name (v_element (mk_element ''item'')) = ''item''"
    by (simp add: mk_element_def)
  from allocation_failure_keeps_store[OF w(1) ex_store_oom_facts(2) h,
      of "Some ''1''" "\<lambda>f (k::nat). Some (f @ ''1'')" "''n''" 0 "''n1''"]
  show ?thesis
    using w(1) ex_store_oom_facts(2) h g by (simp add: en ex_store_oom_facts(4,5))
qed

lemma apply_op_inv:
  assumes wf: "wf_attrs s p" and d: "distinct (map fst (entries s p))"
  shows "\<exists>s'. apply_op render s (Some p) x = Inr s' \<and> wf_attrs s' p
          \<and> distinct (map fst (entries s' p))"
proof -
  from wf obtain n where n: "nodes s p = Some n" "node_type n = MXML_ELEMENT"
    by (rule wf_node)
  show ?thesis
  proof (cases x)
    case (Set_attr name val)
    show ?thesis
    proof (cases name)
      case None
      then show ?thesis
        using Set_attr n wf d by (simp add: mxmlElementSetAttr_def load_node_def)
    next
      case (Some nm)
      from SetAttr_cases[OF wf n(1), of nm val] obtain s' where r:
        "mxmlElementSetAttr s (Some p) (Some nm) val = Inr s'" "wf_attrs s' p"
        "case first_index nm (map fst (entries s p)) of
           Some j \<Rightarrow>
             entries s' p = (entries s p)[j := (nm, if next_fails (oom s) then None else val)]
             \<and> nodes s' = nodes s \<and> errs s' = errs s
             \<and> oom s' = (if val = None then oom s else tl (oom s))
         | None \<Rightarrow>
             if next_fails (if val = None then oom s else tl (oom s))
                \<or> next_fails (tl (if val = None then oom s else tl (oom s)))
             then entries s' p = entries s p
                  \<and> errs s' = errs s @ [alloc_message nm (elem_name (v_element (node_value n)))]
                  \<and> strs s' = strs s @ (if val = None \<or> next_fails (oom s) then [] else [None])
             else entries s' p
                    = entries s p @ [(nm, if next_fails (oom s) then None else val)]
                  \<and> errs s' = errs s
                  \<and> oom s' = tl (tl (if val = None then oom s else tl (oom s)))"
        by blast
      have "distinct (map fst (entries s' p))"
      proof (cases "first_index nm (map fst (entries s p))")
        case None
        then have "nm \<notin> set (map fst (entries s p))" by (simp add: first_index_None)
        with r(3) None d show ?thesis by (auto split: if_splits)
      next
        case (Some j)
        with r(3) first_index_distinct_update[OF Some] d show ?thesis by simp
      qed
      then show ?thesis using Set_attr Some r(1,2) by simp
    qed
  next
    case (Set_attrf name format ap)
    show ?thesis
    proof (cases name)
      case None
      then show ?thesis
        using Set_attrf n wf d by (simp add: mxmlElementSetAttrf_def load_node_def)
    next
      case (Some nm)
      show ?thesis
      proof (cases format)
        case None
        then show ?thesis
          using Set_attrf Some n wf d by (simp add: mxmlElementSetAttrf_def load_node_def)
      next
        case F: (Some fmt)
        from SetAttrf_cases[OF wf n(1), of render nm fmt ap] obtain s' where r:
          "mxmlElementSetAttrf render s (Some p) (Some nm) (Some fmt) ap = Inr s'"
          "wf_attrs s' p"
          "case (if next_fails (oom s) then None else render fmt ap) of
             None \<Rightarrow>
               entries s' p = entries s p
               \<and> errs s' = errs s @ [alloc_message nm (elem_name (v_element (node_value n)))]
               \<and> strs s' = strs s \<and> nodes s' = nodes s
           | Some x \<Rightarrow>
               (case first_index nm (map fst (entries s p)) of
                  Some j \<Rightarrow>
                    entries s' p = (entries s p)[j := (nm, Some x)]
                    \<and> nodes s' = nodes s \<and> errs s' = errs s \<and> oom s' = tl (oom s)
                | None \<Rightarrow>
                    if next_fails (tl (oom s)) \<or> next_fails (tl (tl (oom s)))
                    then entries s' p = entries s p
                         \<and> errs s' = errs s
                              @ [alloc_message nm (elem_name (v_element (node_value n)))]
                         \<and> strs s' = strs s @ [None]
                    else entries s' p = entries s p @ [(nm, Some x)]
                         \<and> errs s' = errs s
                         \<and> oom s' = tl (tl (tl (oom s))))"
          by blast
        have "distinct (map fst (entries s' p))"
        proof (cases "if next_fails (oom s) then None else render fmt ap")
          case None
          with r(3) d show ?thesis by simp
        next
          case V: (Some x)
          show ?thesis
          proof (cases "first_index nm (map fst (entries s p))")
            case None
            then have "nm \<notin> set (map fst (entries s p))" by (simp add: first_index_None)
            with r(3) V None d show ?thesis by (auto split: if_splits)
          next
            case (Some j)
            with r(3) V first_index_distinct_update[OF Some] d show ?thesis by simp
          qed
        qed
        then show ?thesis using Set_attrf Some F r(1,2) by simp
      qed
    qed
  next
    case (Delete_attr name)
    show ?thesis
    proof (cases name)
      case None
      then show ?thesis
        using Delete_attr n wf d by (simp add: mxmlElementDeleteAttr_def load_node_def)
    next
      case (Some nm)
      from Delete_cases[OF wf, of nm] obtain s' where r:
        "mxmlElementDeleteAttr s (Some p) (Some nm) = Inr s'" "wf_attrs s' p"
        "entries s' p = spec_delete nm (entries s p)"
        by blast
      then show ?thesis
        using Delete_attr Some names_spec_delete[OF d, of nm] by simp
    qed
  qed
qed

lemma apply_ops_inv:
  assumes "wf_attrs s p" and "distinct (map fst (entries s p))"
  shows "\<exists>s'. apply_ops render s (Some p) ops = Inr s' \<and> wf_attrs s' p
          \<and> distinct (map fst (entries s' p))"
  using assms
proof (induction ops arbitrary: s)
  case Nil
  then show ?case by simp
next
  case (Cons x xs)
  from apply_op_inv[OF Cons.prems, of render x] obtain s1 where s1:
    "apply_op render s (Some p) x = Inr s1" "wf_attrs s1 p" "distinct (map fst (entries s1 p))"
    by blast
  from Cons.IH[OF s1(2,3)] s1(1) show ?case by simp
qed

text \<open>
  Claim C9.  Starting from an empty attribute set, every sequence of \<^verbatim>\<open>mxmlElementSetAttr\<close>,
  \<^verbatim>\<open>mxmlElementSetAttrf\<close> and \<^verbatim>\<open>mxmlElementDeleteAttr\<close> calls on the element (with any
  arguments, and whichever allocation requests fail) runs without a fault, and afterwards the
  names that \<open>getAttributeByIndex\<close> yields at the positions below the count are pairwise
  different strings.
\<close>

theorem attribute_names_stay_distinct:
  assumes "empty_element s p"
  shows "\<exists>s' names. apply_ops render s (Some p) ops = Inr s'
          \<and> getAttributeCount s' (Some p) = Inr (int (length names))
          \<and> (\<forall>i<length names.
                \<exists>v. getAttributeByIndex s' (Some p) (int i) = Inr (v, Some (names ! i)))
          \<and> distinct names"
proof -
  note w = empty_wf[OF assms]
  have d0: "distinct (map fst (entries s p))" using w(2) by simp
  from apply_ops_inv[OF w(1) d0, of render ops] obtain s' where s':
    "apply_ops render s (Some p) ops = Inr s'" "wf_attrs s' p"
    "distinct (map fst (entries s' p))"
    by blast
  let ?names = "map fst (entries s' p)"
  have c: "getAttributeCount s' (Some p) = Inr (int (length ?names))"
    using getAttributeCount_wf[OF s'(2)] by simp
  have i: "\<forall>i<length ?names.
             \<exists>v. getAttributeByIndex s' (Some p) (int i) = Inr (v, Some (?names ! i))"
    using getAttributeByIndex_wf[OF s'(2)] by simp
  show ?thesis
    using s'(1,3) c i by blast
qed

theorem attribute_names_stay_distinct_witness:
  "empty_element ex_store_oom 20
   \<and> (\<exists>s' names.
         apply_ops (\<lambda>f (k::nat). Some (f @ ''1'')) ex_store_oom (Some 20)
           [Set_attr (Some ''a'') (Some ''1''), Set_attr (Some ''a'') None,
            Set_attrf (Some ''b'') (Some ''n'') 0, Set_attr (Some ''a'') (Some ''2''),
            Delete_attr (Some ''b''), Set_attr (Some ''b'') (Some ''3'')] = Inr s'
       \<and> getAttributeCount s' (Some 20) = Inr (int (length names))
       \<and> (\<forall>i<length names.
             \<exists>v. getAttributeByIndex s' (Some 20) (int i) = Inr (v, Some (names ! i)))
       \<and> distinct names)"
  using attribute_names_stay_distinct[OF ex_store_oom_facts(1)] ex_store_oom_facts(1)
  by (intro conjI)

end
